theory Spec2Isabelle
  imports Complex_Main "HOL-Library.AList" "HOL-Library.Sublist" "HOL-Library.Word"
begin

section \<open>The retrieval pipeline of nextjs-gpt\<close>

text \<open>
  The pipeline file exports three asynchronous functions,
  \<^verbatim>\<open>queryPineconeVectorStoreAndQueryLLM\<close>, \<^verbatim>\<open>createPineconeIndex\<close> and
  \<^verbatim>\<open>updatePinecone\<close>. Each one is a straight sequence of awaited calls to external
  services, so it is embedded as a function on an explicit state: the trace of the
  requests issued so far, paired with the state \<open>'w\<close> of the outside world (index,
  embedding service). A service is a function of that world which returns either the
  value thrown (\<open>Inl\<close>) or the value returned (\<open>Inr\<close>), with the world after the call.
\<close>

subsection \<open>Values\<close>

datatype error = TypeError | ServiceError string

text \<open>JavaScript values as they occur in metadata objects.\<close>

datatype jsval =
  JUndefined
| JNull
| JBool bool
| JNum int
| JStr string
| JArr "jsval list"
| JObj "(string \<times> jsval) list"

text \<open>
  An object is the list of its properties in insertion order; assigning a property
  that exists replaces its value in place, a new one is appended
  (\<^const>\<open>AList.update\<close>).
\<close>

type_synonym metadata = "(string \<times> jsval) list"

type_synonym embedding = "real list"

type_synonym bytes = "8 word list"

record document =
  doc_pageContent :: string
  doc_source :: string

record chunk =
  chunk_pageContent :: string
  chunk_metadata :: metadata

record vector_record =
  vec_id :: string
  vec_values :: "embedding option"
  vec_metadata :: metadata

record query_match =
  match_id :: string
  match_score :: real
  match_metadata :: "metadata option"

record query_request =
  topK :: nat
  vector :: embedding
  includeMetadata :: bool
  includeValues :: bool

record create_request =
  name :: string
  dimension :: nat
  metric :: string

record llm_options =
  modelName :: string
  temperature :: real
  maxTokens :: nat
  streaming :: bool

record input_document =
  input_pageContent :: string

subsection \<open>Requests and the environment\<close>

datatype event =
  ConsoleLog string
| EmbedQuery string
| EmbedDocuments "string list"
| CreateDocuments nat "string list"
| ListIndexes
| CreateIndex create_request
| SetTimeout nat
| Upsert string "vector_record list"
| Query string query_request
| ChainCall llm_options "input_document list" string

type_synonym 'w state = "event list \<times> 'w"

type_synonym ('w, 'a) service = "'w \<Rightarrow> (error + 'a) \<times> 'w"

text \<open>The \<^verbatim>\<open>client\<close> argument of the three functions: the vector index service.\<close>

record 'w client =
  listIndexes :: "('w, string list) service"
  createIndex :: "create_request \<Rightarrow> ('w, unit) service"
  index_upsert :: "string \<Rightarrow> vector_record list \<Rightarrow> ('w, unit) service"
  index_query :: "string \<Rightarrow> query_request \<Rightarrow> ('w, query_match list) service"

text \<open>
  What the file imports: the embedding service, the text splitter (a function of the
  chunk size and the texts), the built-in \<^verbatim>\<open>JSON.stringify\<close>, \<^verbatim>\<open>String\<close> and
  \<^verbatim>\<open>TextEncoder.encode\<close>, and \<^verbatim>\<open>timeout\<close> of the configuration module.
\<close>

text \<open>
  Modelled from the spec: the configuration module \<^verbatim>\<open>../config\<close> is not among the
  sources. The file imports \<^verbatim>\<open>timeout\<close> from it, a number of milliseconds; the
  spec lists a batch size among the values supplied by configuration, which is the
  field \<open>config_batchSize\<close>.
\<close>

record 'w env =
  embedQuery :: "string \<Rightarrow> ('w, embedding) service"
  embedDocuments :: "string list \<Rightarrow> ('w, embedding list) service"
  createDocuments :: "nat \<Rightarrow> string list \<Rightarrow> chunk list"
  JSON_stringify :: "jsval \<Rightarrow> string"
  String_of :: "jsval \<Rightarrow> string"
  encode :: "string \<Rightarrow> bytes"
  timeout :: nat
  config_batchSize :: nat

definition emit :: "event \<Rightarrow> 'w state \<Rightarrow> 'w state" where
  "emit ev s = (fst s @ [ev], snd s)"

definition console_log :: "string \<Rightarrow> 'w state \<Rightarrow> 'w state" where
  "console_log msg s = emit (ConsoleLog msg) s"

text \<open>An awaited call: the request is issued, then the call returns or throws.\<close>

definition perform :: "event \<Rightarrow> ('w, 'a) service \<Rightarrow> 'w state \<Rightarrow> (error + 'a) \<times> 'w state" where
  "perform ev f s = (case f (snd s) of (r, w') \<Rightarrow> (r, (fst s @ [ev], w')))"

subsection \<open>Template literals and string helpers\<close>

definition digit_char :: "nat \<Rightarrow> char" where
  "digit_char d = ''0123456789'' ! d"

fun show_nat :: "nat \<Rightarrow> string" where
  "show_nat n = (if n < 10 then [digit_char n] else show_nat (n div 10) @ [digit_char (n mod 10)])"

declare show_nat.simps [simp del]

definition dquote :: string where
  "dquote = [CHR 0x22]"

definition newline :: char where
  "newline = CHR 0x0A"

text \<open>\<^verbatim>\<open>s.replace(/\n/g, " ")\<close>\<close>

definition replace_newlines :: "string \<Rightarrow> string" where
  "replace_newlines s = map (\<lambda>c. if c = newline then CHR '' '' else c) s"

text \<open>\<^verbatim>\<open>Array.prototype.join\<close> on strings.\<close>

fun join :: "string \<Rightarrow> string list \<Rightarrow> string" where
  "join sep [] = []"
| "join sep [x] = x"
| "join sep (x # y # ys) = x @ sep @ join sep (y # ys)"

text \<open>How \<^verbatim>\<open>join\<close> renders an element: \<^verbatim>\<open>undefined\<close> and \<^verbatim>\<open>null\<close> as the empty string.\<close>

definition join_element :: "'w env \<Rightarrow> jsval \<Rightarrow> string" where
  "join_element env v =
    (case v of JUndefined \<Rightarrow> [] | JNull \<Rightarrow> [] | JStr s \<Rightarrow> s | _ \<Rightarrow> String_of env v)"

text \<open>Reading a property: \<^verbatim>\<open>undefined\<close> when the object has none of that name.\<close>

definition property :: "metadata \<Rightarrow> string \<Rightarrow> jsval" where
  "property obj k = (case map_of obj k of None \<Rightarrow> JUndefined | Some v \<Rightarrow> v)"

text \<open>\<^verbatim>\<open>JSON.stringify(v)\<close> is \<^verbatim>\<open>undefined\<close> for \<^verbatim>\<open>undefined\<close>, a string otherwise.\<close>

definition stringify :: "'w env \<Rightarrow> jsval \<Rightarrow> jsval" where
  "stringify env v = (case v of JUndefined \<Rightarrow> JUndefined | _ \<Rightarrow> JStr (JSON_stringify env v))"

subsection \<open>The output stream and the streaming callbacks\<close>

text \<open>
  The three callbacks are asynchronous functions: each awaits \<^verbatim>\<open>writer.ready\<close> and
  then awaits one call of the writer, and the completion service does not wait for a
  callback before it goes on. What reaches the reader of the stream therefore depends
  on when the reader takes chunks, and the stream is modelled with the writer's
  queue. By the Streams standard, for the \<^verbatim>\<open>TransformStream\<close> the query function
  creates (default strategies, high water mark 1 on the writable side):
  \<^item> \<^verbatim>\<open>write\<close> appends the chunk to the writer's queue, where it stays until the
    reader has taken the chunks before it and takes this one; on a stream that is
    closing, closed or aborted it rejects and changes nothing;
  \<^item> \<^verbatim>\<open>close\<close> closes the stream once the queue is empty, and until then only marks
    it as closing;
  \<^item> \<^verbatim>\<open>abort\<close> puts a writable stream in the aborted state with the given reason and
    discards the chunks still in the queue; on a closed or aborted stream it does
    nothing;
  \<^item> \<^verbatim>\<open>ready\<close> is pending while the queue is not empty; it is rejected once the
    stream is aborted, and fulfilled otherwise. A callback that awaits a pending
    \<^verbatim>\<open>ready\<close> is suspended; when the queue becomes empty the suspended callbacks go
    on, in the order in which they were called.
\<close>

datatype stream_state = Writable | Closed | Errored error

text \<open>What the completion service emits during one run: the callback it calls.\<close>

datatype llm_event = LLMNewToken string | LLMEnd | LLMError error

text \<open>
  \<open>written\<close> are the chunks that have passed to the readable side, \<open>queue\<close> the
  chunks written and not yet passed on, \<open>suspended\<close> the callbacks that await a
  pending \<^verbatim>\<open>ready\<close>.
\<close>

record transform_stream =
  stream_state :: stream_state
  written :: "bytes list"
  queue :: "bytes list"
  closing :: bool
  suspended :: "llm_event list"

definition new_TransformStream :: transform_stream where
  "new_TransformStream =
     \<lparr>stream_state = Writable, written = [], queue = [], closing = False, suspended = []\<rparr>"

definition writer_write :: "bytes \<Rightarrow> transform_stream \<Rightarrow> transform_stream" where
  "writer_write chunk st =
     (if stream_state st = Writable \<and> \<not> closing st then st\<lparr>queue := queue st @ [chunk]\<rparr> else st)"

definition writer_close :: "transform_stream \<Rightarrow> transform_stream" where
  "writer_close st =
     (if stream_state st = Writable \<and> \<not> closing st
      then (if queue st = [] then st\<lparr>stream_state := Closed\<rparr> else st\<lparr>closing := True\<rparr>)
      else st)"

definition writer_abort :: "error \<Rightarrow> transform_stream \<Rightarrow> transform_stream" where
  "writer_abort e st =
     (if stream_state st = Writable then st\<lparr>stream_state := Errored e, queue := []\<rparr> else st)"

text \<open>
  \<^verbatim>\<open>await writer.ready\<close> in the callback called for \<open>ev\<close>, followed by \<open>k\<close>: the
  callback throws when \<^verbatim>\<open>ready\<close> is rejected, is suspended when it is pending, and
  goes on with \<open>k\<close> otherwise.
\<close>

definition await_ready ::
  "llm_event \<Rightarrow> (transform_stream \<Rightarrow> transform_stream) \<Rightarrow> transform_stream \<Rightarrow> transform_stream" where
  "await_ready ev k st =
     (case stream_state st of
        Errored e \<Rightarrow> st
      | Closed \<Rightarrow> k st
      | Writable \<Rightarrow>
          if queue st = [] \<or> closing st then k st
          else st\<lparr>suspended := suspended st @ [ev]\<rparr>)"

definition handleLLMNewToken :: "'w env \<Rightarrow> string \<Rightarrow> transform_stream \<Rightarrow> transform_stream" where
  "handleLLMNewToken env token st =
     await_ready (LLMNewToken token) (writer_write (encode env token)) st"

definition handleLLMEnd :: "transform_stream \<Rightarrow> transform_stream" where
  "handleLLMEnd st = await_ready LLMEnd writer_close st"

definition handleLLMError :: "error \<Rightarrow> transform_stream \<Rightarrow> transform_stream" where
  "handleLLMError e st = await_ready (LLMError e) (writer_abort e) st"

fun callback :: "'w env \<Rightarrow> llm_event \<Rightarrow> transform_stream \<Rightarrow> transform_stream" where
  "callback env (LLMNewToken token) st = handleLLMNewToken env token st"
| "callback env LLMEnd st = handleLLMEnd st"
| "callback env (LLMError e) st = handleLLMError e st"

text \<open>A suspended callback goes on: the part of it after \<^verbatim>\<open>await writer.ready\<close>.\<close>

fun resume :: "'w env \<Rightarrow> llm_event \<Rightarrow> transform_stream \<Rightarrow> transform_stream" where
  "resume env (LLMNewToken token) st = writer_write (encode env token) st"
| "resume env LLMEnd st = writer_close st"
| "resume env (LLMError e) st = writer_abort e st"

text \<open>
  The reader takes the next chunk. When this empties the queue, a stream that is
  closing closes, and otherwise the suspended callbacks go on. A read requested while
  the queue is empty takes its chunk when one is written: it is the \<open>Read\<close> step
  after that notification.
\<close>

definition consumer_read :: "'w env \<Rightarrow> transform_stream \<Rightarrow> transform_stream" where
  "consumer_read env st =
     (if stream_state st \<noteq> Writable then st
      else case queue st of
        [] \<Rightarrow> st
      | chunk # rest \<Rightarrow>
          let st1 = st\<lparr>written := written st @ [chunk], queue := rest\<rparr>
          in if rest \<noteq> [] then st1
             else if closing st1 then st1\<lparr>stream_state := Closed\<rparr>
             else fold (resume env) (suspended st1) (st1\<lparr>suspended := []\<rparr>))"

text \<open>
  A run of one request is a sequence of steps, each in a turn of its own: the
  completion service calls a callback, or the reader takes a chunk.
\<close>

datatype step = Notify llm_event | Read

fun run :: "'w env \<Rightarrow> step list \<Rightarrow> transform_stream \<Rightarrow> transform_stream" where
  "run env [] st = st"
| "run env (Notify ev # steps) st = run env steps (callback env ev st)"
| "run env (Read # steps) st = run env steps (consumer_read env st)"

fun notified :: "step list \<Rightarrow> llm_event list" where
  "notified [] = []"
| "notified (Notify ev # steps) = ev # notified steps"
| "notified (Read # steps) = notified steps"

fun tokens_of :: "llm_event list \<Rightarrow> string list" where
  "tokens_of [] = []"
| "tokens_of (LLMNewToken token # evs) = token # tokens_of evs"
| "tokens_of (ev # evs) = tokens_of evs"

text \<open>
  The run in which the reader keeps up: it takes a chunk after every notification.
\<close>

definition keeping_up :: "llm_event list \<Rightarrow> step list" where
  "keeping_up evs = concat (map (\<lambda>ev. [Notify ev, Read]) evs)"

definition deliver :: "'w env \<Rightarrow> llm_event list \<Rightarrow> transform_stream \<Rightarrow> transform_stream" where
  "deliver env evs st = run env (keeping_up evs) st"

text \<open>
  Predicates on the stream used in the proofs. A stream is \<open>accepting\<close> while it is
  writable and no close has been requested. \<open>stream_inv\<close> holds in every state a run
  reaches, where \<open>toks\<close> are the tokens emitted so far; \<open>emitting\<close> holds as long
  as only tokens have been emitted, \<open>finishing\<close> once the end has been notified
  after them.
\<close>

definition accepting :: "transform_stream \<Rightarrow> bool" where
  "accepting st \<longleftrightarrow> stream_state st = Writable \<and> \<not> closing st"

definition chunks_of :: "'w env \<Rightarrow> llm_event list \<Rightarrow> bytes list" where
  "chunks_of env evs = map (encode env) (tokens_of evs)"

definition stream_inv :: "'w env \<Rightarrow> string list \<Rightarrow> transform_stream \<Rightarrow> bool" where
  "stream_inv env toks st \<longleftrightarrow>
     (suspended st \<noteq> [] \<longrightarrow> accepting st \<and> queue st \<noteq> [])
   \<and> (accepting st \<longrightarrow>
        written st @ queue st @ chunks_of env (suspended st) = map (encode env) toks)
   \<and> prefix (written st @ queue st) (map (encode env) toks)"

definition emitting :: "'w env \<Rightarrow> string list \<Rightarrow> transform_stream \<Rightarrow> bool" where
  "emitting env toks st \<longleftrightarrow>
     accepting st \<and> (suspended st \<noteq> [] \<longrightarrow> queue st \<noteq> [])
   \<and> (\<exists>ts. suspended st = map LLMNewToken ts
          \<and> written st @ queue st @ map (encode env) ts = map (encode env) toks)"

definition finishing :: "'w env \<Rightarrow> string list \<Rightarrow> transform_stream \<Rightarrow> bool" where
  "finishing env toks st \<longleftrightarrow>
     (stream_state st = Closed \<and> written st = map (encode env) toks)
   \<or> (stream_state st = Writable \<and> closing st \<and> queue st \<noteq> []
        \<and> written st @ queue st = map (encode env) toks)
   \<or> (accepting st \<and> queue st \<noteq> []
        \<and> (\<exists>ts. suspended st = map LLMNewToken ts @ [LLMEnd]
              \<and> written st @ queue st @ map (encode env) ts = map (encode env) toks))"

subsection \<open>queryPineconeVectorStoreAndQueryLLM\<close>

text \<open>
  \<^verbatim>\<open>matches.map((match) => match.metadata.pageContent)\<close>: reading a property of an
  absent \<^verbatim>\<open>metadata\<close> throws.
\<close>

fun pageContents :: "query_match list \<Rightarrow> error + jsval list" where
  "pageContents [] = Inr []"
| "pageContents (m # ms) =
    (case match_metadata m of
       None \<Rightarrow> Inl TypeError
     | Some md \<Rightarrow>
         (case pageContents ms of
            Inl e \<Rightarrow> Inl e
          | Inr vs \<Rightarrow> Inr (property md ''pageContent'' # vs)))"

definition llm :: llm_options where
  "llm = \<lparr>modelName = ''gpt-3.5-turbo'', temperature = 9 / 10, maxTokens = 1024, streaming = True\<rparr>"

definition augmentedQuestion :: "string \<Rightarrow> string" where
  "augmentedQuestion question =
    ''Question: '' @ question @ '' '' @ [newline] @ replicate 32 (CHR '' '') @
    ''Condition: End with a URL on where to find more information about the question, only if you know the answer.''"

text \<open>
  The result is \<open>Inr None\<close> when the function returns \<^verbatim>\<open>undefined\<close>, and
  \<open>Inr (Some st)\<close> when it returns the readable end of the stream \<open>st\<close> it created.
  \<^verbatim>\<open>chain.call\<close> is not awaited: the request is issued and the function returns.
\<close>

definition queryPineconeVectorStoreAndQueryLLM ::
  "'w env \<Rightarrow> 'w client \<Rightarrow> string \<Rightarrow> string \<Rightarrow> 'w state \<Rightarrow>
     (error + transform_stream option) \<times> 'w state" where
  "queryPineconeVectorStoreAndQueryLLM env client indexName question s0 =
    (let s1 = console_log ''Querying Pinecone vector store...'' s0 in
     case perform (EmbedQuery question) (embedQuery env question) s1 of
       (Inl e, s2) \<Rightarrow> (Inl e, s2)
     | (Inr queryEmbedding, s2) \<Rightarrow>
         let queryRequest = \<lparr>topK = 10, vector = queryEmbedding,
                              includeMetadata = True, includeValues = True\<rparr>
         in (case perform (Query indexName queryRequest) (index_query client indexName queryRequest) s2 of
              (Inl e, s3) \<Rightarrow> (Inl e, s3)
            | (Inr matches, s3) \<Rightarrow>
                let s4 = console_log (''Found '' @ show_nat (length matches) @ '' matches...'') s3;
                    s5 = console_log (''Asking question: '' @ question @ ''...'') s4
                in if length matches \<noteq> 0 then
                     let stream = new_TransformStream in
                     (case pageContents matches of
                        Inl e \<Rightarrow> (Inl e, s5)
                      | Inr contents \<Rightarrow>
                          let concatenatedPageContent = join '' '' (map (join_element env) contents);
                              s6 = emit (ChainCall llm
                                           [\<lparr>input_pageContent = concatenatedPageContent\<rparr>]
                                           (augmentedQuestion question)) s5
                          in (Inr (Some stream), s6))
                   else (Inr None,
                         console_log ''Since there are no matches, GPT will not be queried.'' s5)))"

subsection \<open>createPineconeIndex\<close>

definition createPineconeIndex ::
  "'w env \<Rightarrow> 'w client \<Rightarrow> string \<Rightarrow> nat \<Rightarrow> 'w state \<Rightarrow> (error + unit) \<times> 'w state" where
  "createPineconeIndex env client indexName vectorDimension s0 =
    (let s1 = console_log (''Checking '' @ dquote @ indexName @ dquote @ ''...'') s0 in
     case perform ListIndexes (listIndexes client) s1 of
       (Inl e, s2) \<Rightarrow> (Inl e, s2)
     | (Inr existingIndexes, s2) \<Rightarrow>
         if indexName \<notin> set existingIndexes then
           let s3 = console_log (''Creating '' @ dquote @ indexName @ dquote @ ''...'') s2;
               createRequest = \<lparr>name = indexName, dimension = vectorDimension, metric = ''cosine''\<rparr>
           in (case perform (CreateIndex createRequest) (createIndex client createRequest) s3 of
                 (Inl e, s4) \<Rightarrow> (Inl e, s4)
               | (Inr u, s4) \<Rightarrow>
                   let s5 = console_log ''Creating index.... please wait for it to finish initializing.'' s4
                   in (Inr (), emit (SetTimeout (timeout env)) s5))
         else (Inr (), console_log (dquote @ indexName @ dquote @ '' already exists.'') s2))"

subsection \<open>updatePinecone\<close>

definition batchSize :: nat where
  "batchSize = 10"

text \<open>The vector record built for the chunk at index \<open>idx\<close>.\<close>

definition make_vector ::
  "'w env \<Rightarrow> string \<Rightarrow> chunk list \<Rightarrow> embedding list \<Rightarrow> nat \<Rightarrow> vector_record" where
  "make_vector env txtPath chunks embeddingsArrays idx =
    (let chunk = chunks ! idx in
     \<lparr>vec_id = txtPath @ ''_'' @ show_nat idx,
      vec_values = (if idx < length embeddingsArrays then Some (embeddingsArrays ! idx) else None),
      vec_metadata =
        AList.update ''txtPath'' (JStr txtPath)
          (AList.update ''pageContent'' (JStr (chunk_pageContent chunk))
            (AList.update ''loc'' (stringify env (property (chunk_metadata chunk) ''loc''))
              (chunk_metadata chunk)))\<rparr>)"

text \<open>The inner loop, from the index \<open>idx\<close> with the vectors collected in \<open>batch\<close>.\<close>

function upsertLoop ::
  "'w env \<Rightarrow> 'w client \<Rightarrow> string \<Rightarrow> string \<Rightarrow> chunk list \<Rightarrow> embedding list \<Rightarrow>
     nat \<Rightarrow> vector_record list \<Rightarrow> 'w state \<Rightarrow> (error + unit) \<times> 'w state" where
  "upsertLoop env client indexName txtPath chunks embeddingsArrays idx batch s =
    (if idx < length chunks then
       let vector = make_vector env txtPath chunks embeddingsArrays idx;
           batch' = batch @ [vector]
       in if length batch' = batchSize \<or> idx = length chunks - 1 then
            (case perform (Upsert indexName batch') (index_upsert client indexName batch') s of
               (Inl e, s') \<Rightarrow> (Inl e, s')
             | (Inr u, s') \<Rightarrow>
                 upsertLoop env client indexName txtPath chunks embeddingsArrays (idx + 1) [] s')
          else upsertLoop env client indexName txtPath chunks embeddingsArrays (idx + 1) batch' s
     else (Inr (), s))"
  by pat_completeness auto
termination
  by (relation "measure (\<lambda>(env, client, indexName, txtPath, chunks, embeddingsArrays, idx, batch, s).
        length chunks - idx)") auto

declare upsertLoop.simps [simp del]

text \<open>The body of the loop over the documents.\<close>

definition processDoc ::
  "'w env \<Rightarrow> 'w client \<Rightarrow> string \<Rightarrow> document \<Rightarrow> 'w state \<Rightarrow> (error + unit) \<times> 'w state" where
  "processDoc env client indexName doc s0 =
    (let s1 = console_log (''Processing document: '' @ doc_source doc) s0;
         txtPath = doc_source doc;
         text = doc_pageContent doc;
         s2 = console_log ''Splitting text into chunks...'' s1;
         chunks = createDocuments env 1000 [text];
         s3 = emit (CreateDocuments 1000 [text]) s2;
         s4 = console_log (''Text split into '' @ show_nat (length chunks) @ '' chunks'') s3;
         s5 = console_log (''Calling OpenAI's Embedding endpoint documents with '' @
                show_nat (length chunks) @ '' text chunks ...'') s4;
         texts = map (\<lambda>chunk. replace_newlines (chunk_pageContent chunk)) chunks
     in case perform (EmbedDocuments texts) (embedDocuments env texts) s5 of
          (Inl e, s6) \<Rightarrow> (Inl e, s6)
        | (Inr embeddingsArrays, s6) \<Rightarrow>
            let s7 = console_log ''Finished embedding documents'' s6;
                s8 = console_log (''Creating '' @ show_nat (length chunks) @
                       '' vectors array with id, values, and metadata...'') s7
            in (case upsertLoop env client indexName txtPath chunks embeddingsArrays 0 [] s8 of
                  (Inl e, s9) \<Rightarrow> (Inl e, s9)
                | (Inr u, s9) \<Rightarrow>
                    (Inr (), console_log (''Pinecone index updated with '' @
                               show_nat (length chunks) @ '' vectors'') s9)))"

fun processDocs ::
  "'w env \<Rightarrow> 'w client \<Rightarrow> string \<Rightarrow> document list \<Rightarrow> 'w state \<Rightarrow> (error + unit) \<times> 'w state" where
  "processDocs env client indexName [] s = (Inr (), s)"
| "processDocs env client indexName (doc # docs) s =
    (case processDoc env client indexName doc s of
       (Inl e, s') \<Rightarrow> (Inl e, s')
     | (Inr u, s') \<Rightarrow> processDocs env client indexName docs s')"

definition updatePinecone ::
  "'w env \<Rightarrow> 'w client \<Rightarrow> string \<Rightarrow> document list \<Rightarrow> 'w state \<Rightarrow> (error + unit) \<times> 'w state" where
  "updatePinecone env client indexName docs s0 =
    (let s1 = console_log ''Retrieving Pinecone index...'' s0;
         s2 = console_log (''Pinecone index retrieved: '' @ indexName) s1
     in processDocs env client indexName docs s2)"

text \<open>
  For the proofs about the inner loop: \<open>batches_of n xs\<close> cuts \<open>xs\<close> into
  consecutive pieces of \<open>n\<close> elements, the last one holding what is left, and
  \<open>upsert_all\<close> issues one upsert request per piece, in order, and stops at the first
  request that throws. The inner loop is shown to do exactly this with the vector
  records of the document (\<open>upsertLoop_upsert_all\<close>).
\<close>

function batches_of :: "nat \<Rightarrow> 'a list \<Rightarrow> 'a list list" where
  "batches_of n xs = (if n = 0 \<or> xs = [] then [] else take n xs # batches_of n (drop n xs))"
  by pat_completeness auto
termination
  by (relation "measure (\<lambda>(n, xs). length xs)") auto

declare batches_of.simps [simp del]

fun upsert_all ::
  "'w client \<Rightarrow> string \<Rightarrow> vector_record list list \<Rightarrow> 'w state \<Rightarrow> (error + unit) \<times> 'w state" where
  "upsert_all client indexName [] s = (Inr (), s)"
| "upsert_all client indexName (b # bs) s =
    (case perform (Upsert indexName b) (index_upsert client indexName b) s of
       (Inl e, s') \<Rightarrow> (Inl e, s')
     | (Inr u, s') \<Rightarrow> upsert_all client indexName bs s')"

subsection \<open>Reading a trace\<close>

fun upsert_batches :: "event list \<Rightarrow> vector_record list list" where
  "upsert_batches [] = []"
| "upsert_batches (Upsert indexName batch # evs) = batch # upsert_batches evs"
| "upsert_batches (ev # evs) = upsert_batches evs"

fun is_ChainCall :: "event \<Rightarrow> bool" where
  "is_ChainCall (ChainCall opts docs q) = True"
| "is_ChainCall ev = False"

fun embed_requests :: "event list \<Rightarrow> string list list" where
  "embed_requests [] = []"
| "embed_requests (EmbedDocuments texts # evs) = texts # embed_requests evs"
| "embed_requests (ev # evs) = embed_requests evs"

text \<open>
  Names for what the loop body computes from a document: its chunks, the texts sent
  to the embedding service, the vector records in chunk order, and the requests
  issued up to and including the embedding request.
\<close>

definition doc_chunks :: "'w env \<Rightarrow> document \<Rightarrow> chunk list" where
  "doc_chunks env doc = createDocuments env 1000 [doc_pageContent doc]"

definition doc_texts :: "'w env \<Rightarrow> document \<Rightarrow> string list" where
  "doc_texts env doc = map (\<lambda>chunk. replace_newlines (chunk_pageContent chunk)) (doc_chunks env doc)"

definition doc_vectors :: "'w env \<Rightarrow> document \<Rightarrow> embedding list \<Rightarrow> vector_record list" where
  "doc_vectors env doc embeddingsArrays =
     map (make_vector env (doc_source doc) (doc_chunks env doc) embeddingsArrays)
       [0..<length (doc_chunks env doc)]"

definition doc_prologue :: "'w env \<Rightarrow> document \<Rightarrow> event list" where
  "doc_prologue env doc =
     [ConsoleLog (''Processing document: '' @ doc_source doc),
      ConsoleLog ''Splitting text into chunks...'',
      CreateDocuments 1000 [doc_pageContent doc],
      ConsoleLog (''Text split into '' @ show_nat (length (doc_chunks env doc)) @ '' chunks''),
      ConsoleLog (''Calling OpenAI's Embedding endpoint documents with '' @
        show_nat (length (doc_chunks env doc)) @ '' text chunks ...''),
      EmbedDocuments (doc_texts env doc)]"

definition doc_embedded :: "'w env \<Rightarrow> document \<Rightarrow> event list" where
  "doc_embedded env doc =
     [ConsoleLog ''Finished embedding documents'',
      ConsoleLog (''Creating '' @ show_nat (length (doc_chunks env doc)) @
        '' vectors array with id, values, and metadata...'')]"

definition doc_epilogue :: "'w env \<Rightarrow> document \<Rightarrow> event list" where
  "doc_epilogue env doc =
     [ConsoleLog (''Pinecone index updated with '' @
        show_nat (length (doc_chunks env doc)) @ '' vectors'')]"

subsection \<open>A small world for examples\<close>

text \<open>
  The world is the list of index names that exist. The services succeed, except that
  embedding the text \<open>fail\<close> and upserting a vector whose id is in \<open>bad\<close> throw.
  The index answers a query with no match when the query vector is empty. The index
  named \<open>bare\<close> holds one vector that was stored without metadata.
\<close>

definition ex_client :: "string list \<Rightarrow> (string list) client" where
  "ex_client bad =
    \<lparr>listIndexes = (\<lambda>w. (Inr w, w)),
     createIndex = (\<lambda>req w. (Inr (), w @ [name req])),
     index_upsert = (\<lambda>indexName vectors w.
        if (\<exists>v \<in> set vectors. vec_id v \<in> set bad) then (Inl (ServiceError ''upsert''), w)
        else (Inr (), w)),
     index_query = (\<lambda>indexName req w.
        if vector req = [] then (Inr [], w)
        else if indexName = ''bare''
        then (Inr [\<lparr>match_id = ''x_0'', match_score = 1, match_metadata = None\<rparr>], w)
        else (Inr [\<lparr>match_id = ''a_0'', match_score = 1,
                    match_metadata = Some [(''pageContent'', JStr ''alpha'')]\<rparr>,
                   \<lparr>match_id = ''a_1'', match_score = 0,
                    match_metadata = Some [(''pageContent'', JStr ''beta'')]\<rparr>], w))\<rparr>"

text \<open>
  The example splitter cuts a text at every \<open>#\<close>. The example encoder gives the
  code of each character, which is its UTF-8 encoding for the ASCII texts used here.
\<close>

fun split_hash :: "string \<Rightarrow> string \<Rightarrow> string list" where
  "split_hash acc [] = [acc]"
| "split_hash acc (c # cs) =
    (if c = CHR ''#'' then acc # split_hash [] cs else split_hash (acc @ [c]) cs)"

definition ex_env :: "(string list) env" where
  "ex_env =
    \<lparr>embedQuery = (\<lambda>q w. if q = ''fail'' then (Inl (ServiceError ''embed''), w)
                          else (Inr (map (\<lambda>c. 1) q), w)),
     embedDocuments = (\<lambda>texts w. if ''fail'' \<in> set texts then (Inl (ServiceError ''embed''), w)
                                  else (Inr (map (\<lambda>t. [real (length t)]) texts), w)),
     createDocuments = (\<lambda>chunkSize texts.
        concat (map (\<lambda>t. if t = [] then []
                         else map (\<lambda>p. \<lparr>chunk_pageContent = p, chunk_metadata = []\<rparr>)
                                (split_hash [] t)) texts)),
     JSON_stringify = (\<lambda>v. ''null''),
     String_of = (\<lambda>v. []),
     encode = map of_char,
     timeout = 80000,
     config_batchSize = 2\<rparr>"

definition ex_doc :: "string \<Rightarrow> string \<Rightarrow> document" where
  "ex_doc text src = \<lparr>doc_pageContent = text, doc_source = src\<rparr>"

definition ex_two_lines :: string where
  "ex_two_lines = [CHR ''a'', newline, CHR ''b'']"

section \<open>Properties\<close>

subsection \<open>Index creation\<close>

text \<open>
  C5. Provided \<^verbatim>\<open>listIndexes\<close> returns, \<^verbatim>\<open>createPineconeIndex\<close> issues a
  \<^verbatim>\<open>createIndex\<close> request exactly when the index name is not among the names
  returned. The request carries the given name and dimension and the metric
  \<^verbatim>\<open>cosine\<close>; when it succeeds the function waits \<^verbatim>\<open>timeout\<close> and returns, and
  when it throws the error is passed on without a wait. When the name is listed the
  function issues no create request and does not wait.
\<close>

theorem createPineconeIndex_creates_iff_absent:
  assumes "listIndexes client w = (Inr existingIndexes, w1)"
  shows "(indexName \<in> set existingIndexes \<longrightarrow>
           createPineconeIndex env client indexName vectorDimension (tr, w) =
             (Inr (), (tr @ [ConsoleLog (''Checking '' @ dquote @ indexName @ dquote @ ''...''),
                            ListIndexes,
                            ConsoleLog (dquote @ indexName @ dquote @ '' already exists.'')], w1)))
       \<and> (indexName \<notin> set existingIndexes \<longrightarrow>
           (\<forall>w2. createIndex client \<lparr>name = indexName, dimension = vectorDimension, metric = ''cosine''\<rparr> w1 = (Inr (), w2) \<longrightarrow>
             createPineconeIndex env client indexName vectorDimension (tr, w) =
               (Inr (), (tr @ [ConsoleLog (''Checking '' @ dquote @ indexName @ dquote @ ''...''),
                              ListIndexes,
                              ConsoleLog (''Creating '' @ dquote @ indexName @ dquote @ ''...''),
                              CreateIndex \<lparr>name = indexName, dimension = vectorDimension, metric = ''cosine''\<rparr>,
                              ConsoleLog ''Creating index.... please wait for it to finish initializing.'',
                              SetTimeout (timeout env)], w2)))
         \<and> (\<forall>e w2. createIndex client \<lparr>name = indexName, dimension = vectorDimension, metric = ''cosine''\<rparr> w1 = (Inl e, w2) \<longrightarrow>
             createPineconeIndex env client indexName vectorDimension (tr, w) =
               (Inl e, (tr @ [ConsoleLog (''Checking '' @ dquote @ indexName @ dquote @ ''...''),
                              ListIndexes,
                              ConsoleLog (''Creating '' @ dquote @ indexName @ dquote @ ''...''),
                              CreateIndex \<lparr>name = indexName, dimension = vectorDimension, metric = ''cosine''\<rparr>], w2))))"
  using assms
  by (auto simp: createPineconeIndex_def perform_def console_log_def emit_def Let_def)

theorem createPineconeIndex_creates_iff_absent_witness:
  "createPineconeIndex ex_env (ex_client []) ''docs'' 1536 ([], [''docs'']) =
     (Inr (), ([ConsoleLog (''Checking '' @ dquote @ ''docs'' @ dquote @ ''...''), ListIndexes,
                ConsoleLog (dquote @ ''docs'' @ dquote @ '' already exists.'')], [''docs'']))
   \<and> createPineconeIndex ex_env (ex_client []) ''docs'' 1536 ([], [''blog'']) =
     (Inr (), ([ConsoleLog (''Checking '' @ dquote @ ''docs'' @ dquote @ ''...''), ListIndexes,
                ConsoleLog (''Creating '' @ dquote @ ''docs'' @ dquote @ ''...''),
                CreateIndex \<lparr>name = ''docs'', dimension = 1536, metric = ''cosine''\<rparr>,
                ConsoleLog ''Creating index.... please wait for it to finish initializing.'',
                SetTimeout 80000], [''blog'', ''docs'']))"
  using createPineconeIndex_creates_iff_absent
          [where client = "ex_client []" and w = "[''docs'']" and existingIndexes = "[''docs'']"
             and ?w1.0 = "[''docs'']" and indexName = "''docs''" and env = ex_env
             and vectorDimension = 1536 and tr = "[]"]
        createPineconeIndex_creates_iff_absent
          [where client = "ex_client []" and w = "[''blog'']" and existingIndexes = "[''blog'']"
             and ?w1.0 = "[''blog'']" and indexName = "''docs''" and env = ex_env
             and vectorDimension = 1536 and tr = "[]"]
  by (simp add: ex_client_def ex_env_def)

subsection \<open>The streaming callbacks\<close>

lemma run_append:
  "run env (steps @ steps') st = run env steps' (run env steps st)"
  by (induction env steps st rule: run.induct) simp_all

lemma keeping_up_append:
  "keeping_up (evs @ evs') = keeping_up evs @ keeping_up evs'"
  by (simp add: keeping_up_def)

lemma deliver_Nil:
  "deliver env [] st = st"
  by (simp add: deliver_def keeping_up_def)

lemma deliver_Cons:
  "deliver env (ev # evs) st = deliver env evs (consumer_read env (callback env ev st))"
  by (simp add: deliver_def keeping_up_def)

lemma deliver_append:
  "deliver env (evs @ evs') st = deliver env evs' (deliver env evs st)"
  by (simp add: deliver_def keeping_up_append run_append)

lemma callback_terminal:
  "stream_state st \<noteq> Writable \<Longrightarrow> callback env ev st = st"
  by (cases ev; cases "stream_state st")
     (simp_all add: handleLLMNewToken_def handleLLMEnd_def handleLLMError_def await_ready_def
        writer_write_def writer_close_def writer_abort_def)

lemma consumer_read_terminal:
  "stream_state st \<noteq> Writable \<Longrightarrow> consumer_read env st = st"
  by (simp add: consumer_read_def)

lemma run_terminal:
  "stream_state st \<noteq> Writable \<Longrightarrow> run env steps st = st"
  by (induction env steps st rule: run.induct)
     (simp_all add: callback_terminal consumer_read_terminal)


lemma deliver_token_idle:
  "stream_state st = Writable \<Longrightarrow> queue st = [] \<Longrightarrow> \<not> closing st \<Longrightarrow> suspended st = [] \<Longrightarrow>
     consumer_read env (handleLLMNewToken env token st) =
       st\<lparr>written := written st @ [encode env token]\<rparr>"
  by (simp add: handleLLMNewToken_def await_ready_def writer_write_def consumer_read_def)

lemma deliver_tokens:
  "stream_state st = Writable \<Longrightarrow> queue st = [] \<Longrightarrow> \<not> closing st \<Longrightarrow> suspended st = [] \<Longrightarrow>
     deliver env (map LLMNewToken tokens) st = st\<lparr>written := written st @ map (encode env) tokens\<rparr>"
  by (induction tokens arbitrary: st) (simp_all add: deliver_Nil deliver_Cons deliver_token_idle)

lemma deliver_tokens_new:
  "deliver env (map LLMNewToken tokens) new_TransformStream =
     \<lparr>stream_state = Writable, written = map (encode env) tokens, queue = [], closing = False,
      suspended = []\<rparr>"
  by (simp add: deliver_tokens new_TransformStream_def)


lemma deliver_error_idle:
  "deliver env [LLMError e]
     \<lparr>stream_state = Writable, written = ws, queue = [], closing = False, suspended = []\<rparr> =
     \<lparr>stream_state = Errored e, written = ws, queue = [], closing = False, suspended = []\<rparr>"
  by (simp add: deliver_Nil deliver_Cons handleLLMError_def await_ready_def writer_abort_def
        consumer_read_def)

lemma tokens_of_append:
  "tokens_of (evs @ evs') = tokens_of evs @ tokens_of evs'"
  by (induction evs rule: tokens_of.induct) simp_all

lemma notified_append:
  "notified (steps @ steps') = notified steps @ notified steps'"
  by (induction steps rule: notified.induct) simp_all

lemma chunks_of_simps [simp]:
  "chunks_of env [] = []"
  "chunks_of env (LLMNewToken token # evs) = encode env token # chunks_of env evs"
  "chunks_of env (LLMEnd # evs) = chunks_of env evs"
  "chunks_of env (LLMError e # evs) = chunks_of env evs"
  "chunks_of env (evs @ evs') = chunks_of env evs @ chunks_of env evs'"
  by (simp_all add: chunks_of_def tokens_of_append)

lemma resume_fields [simp]:
  "written (resume env ev st) = written st"
  "suspended (resume env ev st) = suspended st"
  by (cases ev; simp add: writer_write_def writer_close_def writer_abort_def)+

lemma fold_resume_fields [simp]:
  "written (fold (resume env) evs st) = written st"
  "suspended (fold (resume env) evs st) = suspended st"
  by (induction evs arbitrary: st; simp)+

lemma resume_stuck:
  "\<not> accepting st \<Longrightarrow>
     \<not> accepting (resume env ev st) \<and> prefix (queue (resume env ev st)) (queue st)"
  by (cases ev) (auto simp: accepting_def writer_write_def writer_close_def writer_abort_def)

lemma fold_resume_stuck:
  "\<not> accepting st \<Longrightarrow>
     \<not> accepting (fold (resume env) evs st) \<and> prefix (queue (fold (resume env) evs st)) (queue st)"
proof (induction evs arbitrary: st)
  case Nil
  then show ?case by simp
next
  case (Cons ev evs)
  from resume_stuck [OF Cons.prems, of env ev]
  have a: "\<not> accepting (resume env ev st)" and p: "prefix (queue (resume env ev st)) (queue st)"
    by simp_all
  from Cons.IH [OF a] p show ?case
    by (auto intro: prefix_order.trans)
qed

lemma fold_resume_queue:
  "prefix (queue (fold (resume env) evs st)) (queue st @ chunks_of env evs)
   \<and> (accepting (fold (resume env) evs st) \<longrightarrow>
        queue (fold (resume env) evs st) = queue st @ chunks_of env evs)"
proof (induction evs arbitrary: st)
  case Nil
  then show ?case by simp
next
  case (Cons ev evs)
  show ?case
  proof (cases "accepting (resume env ev st)")
    case True
    then have q: "queue (resume env ev st) @ chunks_of env evs = queue st @ chunks_of env (ev # evs)"
      by (cases ev) (auto simp: accepting_def writer_write_def writer_close_def writer_abort_def split: if_splits)
    from Cons.IH [of "resume env ev st"] show ?thesis
      by (simp add: q)
  next
    case False
    have p: "prefix (queue (resume env ev st)) (queue st)"
      using False
      by (cases ev)
         (auto simp: accepting_def writer_write_def writer_close_def writer_abort_def
            split: if_splits)
    from fold_resume_stuck [OF False, of env evs] p show ?thesis
      by (auto intro: prefix_order.trans prefix_prefix)
  qed
qed

lemma callback_inv:
  "stream_inv env toks st \<Longrightarrow> stream_inv env (toks @ tokens_of [ev]) (callback env ev st)"
  by (cases ev; cases "stream_state st")
     (auto simp: stream_inv_def accepting_def handleLLMNewToken_def handleLLMEnd_def
        handleLLMError_def await_ready_def writer_write_def writer_close_def writer_abort_def
        intro: prefix_prefix dest: append_prefixD)

lemma consumer_read_inv:
  assumes "stream_inv env toks st"
  shows "stream_inv env toks (consumer_read env st)"
proof (cases "stream_state st = Writable")
  case False
  with assms show ?thesis by (simp add: consumer_read_def)
next
  case w: True
  show ?thesis
  proof (cases "queue st")
    case Nil
    with assms w show ?thesis by (simp add: consumer_read_def)
  next
    case (Cons chunk rest)
    show ?thesis
    proof (cases "rest = []")
      case False
      with assms w Cons show ?thesis
        by (auto simp: consumer_read_def stream_inv_def accepting_def Let_def)
    next
      case r: True
      show ?thesis
      proof (cases "closing st")
        case True
        with assms w Cons r show ?thesis
          by (auto simp: consumer_read_def stream_inv_def accepting_def Let_def)
      next
        case False
        define s where "s = st\<lparr>written := written st @ [chunk], queue := [], suspended := []\<rparr>"
        have cr: "consumer_read env st = fold (resume env) (suspended st) s"
          using w Cons r False by (simp add: consumer_read_def Let_def s_def)
        from assms w False Cons r
        have eq: "written st @ [chunk] @ chunks_of env (suspended st) = map (encode env) toks"
          by (simp add: stream_inv_def accepting_def)
        from fold_resume_queue [of env "suspended st" s]
        have p: "prefix (queue (fold (resume env) (suspended st) s)) (chunks_of env (suspended st))"
          and a: "accepting (fold (resume env) (suspended st) s) \<longrightarrow>
                  queue (fold (resume env) (suspended st) s) = chunks_of env (suspended st)"
          by (simp_all add: s_def)
        have "prefix ((written st @ [chunk]) @ queue (fold (resume env) (suspended st) s))
                ((written st @ [chunk]) @ chunks_of env (suspended st))"
          using p by (simp only: same_prefix_prefix)
        with eq a show ?thesis
          by (simp add: cr stream_inv_def s_def)
      qed
    qed
  qed
qed

lemma run_inv:
  "stream_inv env toks st \<Longrightarrow>
     stream_inv env (toks @ tokens_of (notified steps)) (run env steps st)"
proof (induction env steps st arbitrary: toks rule: run.induct)
  case (1 env st)
  then show ?case by simp
next
  case (2 env ev steps st)
  from "2.IH" [OF callback_inv [OF "2.prems"]] show ?case
    by (cases ev) simp_all
next
  case (3 env steps st)
  from "3.IH" [OF consumer_read_inv [OF "3.prems"]] show ?case by simp
qed

lemma new_TransformStream_inv:
  "stream_inv env [] new_TransformStream"
  by (simp add: stream_inv_def new_TransformStream_def accepting_def)

lemma run_written_prefix:
  "prefix (written (run env steps new_TransformStream)) (map (encode env) (tokens_of (notified steps)))"
  using run_inv [OF new_TransformStream_inv, of env steps]
  by (auto simp: stream_inv_def dest: append_prefixD)


lemma fold_resume_tokens:
  "accepting st \<Longrightarrow>
     fold (resume env) (map LLMNewToken ts) st = st\<lparr>queue := queue st @ map (encode env) ts\<rparr>"
  by (induction ts arbitrary: st) (simp_all add: accepting_def writer_write_def)

lemma emitting_new:
  "emitting env [] new_TransformStream"
  by (simp add: emitting_def accepting_def new_TransformStream_def)

lemma emitting_token:
  assumes "emitting env toks st"
  shows "emitting env (toks @ [token]) (handleLLMNewToken env token st)"
proof -
  from assms obtain ts where a: "accepting st" and q: "suspended st \<noteq> [] \<longrightarrow> queue st \<noteq> []"
    and s: "suspended st = map LLMNewToken ts"
    and e: "written st @ queue st @ map (encode env) ts = map (encode env) toks"
    by (auto simp: emitting_def)
  show ?thesis
  proof (cases "queue st = []")
    case True
    with q s have "ts = []" by auto
    with a True s e show ?thesis
      by (simp add: emitting_def accepting_def handleLLMNewToken_def await_ready_def writer_write_def)
  next
    case False
    have r: "handleLLMNewToken env token st = st\<lparr>suspended := suspended st @ [LLMNewToken token]\<rparr>"
      using a False by (simp add: accepting_def handleLLMNewToken_def await_ready_def)
    have "suspended st @ [LLMNewToken token] = map LLMNewToken (ts @ [token])
          \<and> written st @ queue st @ map (encode env) (ts @ [token]) = map (encode env) (toks @ [token])"
      using s by (simp add: e [symmetric])
    then have "\<exists>ts'. suspended st @ [LLMNewToken token] = map LLMNewToken ts'
          \<and> written st @ queue st @ map (encode env) ts' = map (encode env) (toks @ [token])"
      by (rule exI)
    with a False show ?thesis
      by (simp add: r emitting_def accepting_def)
  qed
qed


lemma emitting_read:
  assumes "emitting env toks st"
  shows "emitting env toks (consumer_read env st)"
proof -
  from assms obtain ts where a: "accepting st" and q: "suspended st \<noteq> [] \<longrightarrow> queue st \<noteq> []"
    and s: "suspended st = map LLMNewToken ts"
    and e: "written st @ queue st @ map (encode env) ts = map (encode env) toks"
    by (auto simp: emitting_def)
  show ?thesis
  proof (cases "queue st")
    case Nil
    with a have "consumer_read env st = st" by (simp add: consumer_read_def)
    with assms show ?thesis by simp
  next
    case (Cons chunk rest)
    show ?thesis
    proof (cases "rest = []")
      case False
      with a Cons have r: "consumer_read env st = st\<lparr>written := written st @ [chunk], queue := rest\<rparr>"
        by (simp add: consumer_read_def accepting_def Let_def)
      from a False s e Cons show ?thesis
        unfolding r emitting_def by (auto simp: accepting_def)
    next
      case True
      define s1 where "s1 = st\<lparr>written := written st @ [chunk], queue := [], suspended := []\<rparr>"
      have a1: "accepting s1" using a by (simp add: s1_def accepting_def)
      have r: "consumer_read env st = s1\<lparr>queue := map (encode env) ts\<rparr>"
        using a Cons True fold_resume_tokens [OF a1, of env ts]
        by (simp add: consumer_read_def accepting_def Let_def s s1_def)
      from a e Cons True show ?thesis
        unfolding r emitting_def by (simp add: accepting_def s1_def)
    qed
  qed
qed

lemma emitting_end:
  assumes "emitting env toks st"
  shows "finishing env toks (handleLLMEnd st)"
proof -
  from assms obtain ts where a: "accepting st" and q: "suspended st \<noteq> [] \<longrightarrow> queue st \<noteq> []"
    and s: "suspended st = map LLMNewToken ts"
    and e: "written st @ queue st @ map (encode env) ts = map (encode env) toks"
    by (auto simp: emitting_def)
  show ?thesis
  proof (cases "queue st = []")
    case True
    with q s have "ts = []" by auto
    with a True e show ?thesis
      by (simp add: finishing_def accepting_def handleLLMEnd_def await_ready_def writer_close_def)
  next
    case False
    have r: "handleLLMEnd st = st\<lparr>suspended := suspended st @ [LLMEnd]\<rparr>"
      using a False by (simp add: accepting_def handleLLMEnd_def await_ready_def)
    from a False s e show ?thesis
      unfolding r finishing_def by (simp add: accepting_def) (rule exI [of _ ts], simp)
  qed
qed

lemma finishing_read:
  assumes "finishing env toks st"
  shows "finishing env toks (consumer_read env st)
         \<and> (stream_state (consumer_read env st) = Closed
            \<or> length (written (consumer_read env st)) = Suc (length (written st)))"
proof -
  consider (closed) "stream_state st = Closed" "written st = map (encode env) toks"
    | (closing) "stream_state st = Writable" "closing st" "queue st \<noteq> []"
        "written st @ queue st = map (encode env) toks"
    | (waiting) ts where "accepting st" "queue st \<noteq> []" "suspended st = map LLMNewToken ts @ [LLMEnd]"
        "written st @ queue st @ map (encode env) ts = map (encode env) toks"
    using assms by (auto simp: finishing_def)
  then show ?thesis
  proof cases
    case closed
    then show ?thesis by (simp add: consumer_read_def finishing_def)
  next
    case closing
    then obtain chunk rest where c: "queue st = chunk # rest" by (cases "queue st") auto
    with closing show ?thesis
      by (cases "rest = []") (simp_all add: consumer_read_def finishing_def Let_def)
  next
    case waiting
    then obtain chunk rest where c: "queue st = chunk # rest" by (cases "queue st") auto
    show ?thesis
    proof (cases "rest = []")
      case False
      with waiting c show ?thesis
        by (simp add: consumer_read_def finishing_def accepting_def Let_def)
           (rule exI [of _ ts], simp)
    next
      case True
      define s1 where "s1 = st\<lparr>written := written st @ [chunk], queue := [], suspended := []\<rparr>"
      have a1: "accepting s1" using waiting(1) by (simp add: s1_def accepting_def)
      have r: "consumer_read env st = writer_close (s1\<lparr>queue := map (encode env) ts\<rparr>)"
        using waiting c True fold_resume_tokens [OF a1, of env ts]
        by (simp add: consumer_read_def accepting_def Let_def s1_def)
      from waiting c True show ?thesis
        unfolding r finishing_def by (auto simp: accepting_def s1_def writer_close_def)
    qed
  qed
qed

lemma reads_finish:
  "finishing env toks st \<Longrightarrow> length toks \<le> length (written st) + n \<Longrightarrow>
     stream_state (run env (replicate n Read) st) = Closed
     \<and> written (run env (replicate n Read) st) = map (encode env) toks"
proof (induction n arbitrary: st)
  case 0
  consider (closed) "stream_state st = Closed" "written st = map (encode env) toks"
    | (closing) "queue st \<noteq> []" "written st @ queue st = map (encode env) toks"
    | (waiting) ts where "queue st \<noteq> []"
        "written st @ queue st @ map (encode env) ts = map (encode env) toks"
    using "0.prems"(1) by (auto simp: finishing_def)
  then have "stream_state st = Closed \<and> written st = map (encode env) toks"
  proof cases
    case closed
    then show ?thesis by simp
  next
    case closing
    from arg_cong [OF closing(2), of length]
    have "length (written st) + length (queue st) \<le> length toks" by simp
    moreover from closing(1) have "0 < length (queue st)" by simp
    ultimately show ?thesis using "0.prems"(2) by simp
  next
    case waiting
    from arg_cong [OF waiting(2), of length]
    have "length (written st) + length (queue st) \<le> length toks" by simp
    moreover from waiting(1) have "0 < length (queue st)" by simp
    ultimately show ?thesis using "0.prems"(2) by simp
  qed
  then show ?case by simp
next
  case (Suc n)
  from finishing_read [OF Suc.prems(1)]
  have f: "finishing env toks (consumer_read env st)"
    and g: "stream_state (consumer_read env st) = Closed
            \<or> length (written (consumer_read env st)) = Suc (length (written st))"
    by simp_all
  from g show ?case
  proof
    assume c: "stream_state (consumer_read env st) = Closed"
    with f have "written (consumer_read env st) = map (encode env) toks"
      by (auto simp: finishing_def accepting_def)
    with c show ?thesis by (simp add: run_terminal)
  next
    assume "length (written (consumer_read env st)) = Suc (length (written st))"
    with Suc.prems(2) have "length toks \<le> length (written (consumer_read env st)) + n" by simp
    from Suc.IH [OF f this] show ?thesis by simp
  qed
qed

lemma run_reads_finishing:
  "notified steps = [] \<Longrightarrow> finishing env toks st \<Longrightarrow> finishing env toks (run env steps st)"
  by (induction env steps st rule: run.induct) (simp_all add: finishing_read)

lemma run_normal:
  "emitting env toks st \<Longrightarrow> notified steps = map LLMNewToken ts @ [LLMEnd] \<Longrightarrow>
     finishing env (toks @ ts) (run env steps st)"
proof (induction env steps st arbitrary: toks ts rule: run.induct)
  case (1 env st)
  then show ?case by simp
next
  case (2 env ev steps st)
  show ?case
  proof (cases ts)
    case Nil
    with "2.prems" have ev: "ev = LLMEnd" and n: "notified steps = []" by simp_all
    from run_reads_finishing [OF n emitting_end [OF "2.prems"(1)]] show ?thesis
      by (simp add: ev Nil)
  next
    case (Cons t ts')
    with "2.prems" have ev: "ev = LLMNewToken t" and n: "notified steps = map LLMNewToken ts' @ [LLMEnd]"
      by simp_all
    from "2.IH" [OF _ n, of "toks @ [t]"] emitting_token [OF "2.prems"(1), of t] show ?thesis
      by (simp add: ev Cons)
  qed
next
  case (3 env steps st)
  from "3.IH" [OF emitting_read [OF "3.prems"(1)]] "3.prems"(2) show ?case by simp
qed

lemma run_normal_written:
  assumes "notified steps = map LLMNewToken tokens @ [LLMEnd]"
  shows "written (run env (steps @ replicate (length tokens) Read) new_TransformStream) =
           map (encode env) tokens"
  using reads_finish [OF run_normal [OF emitting_new assms, of env], of "length tokens"]
  by (simp add: run_append)

text \<open>
  A run that fails while chunks wait for the reader: the service emits \<open>a\<close>, the
  reader takes it, the service emits \<open>b\<close> and \<open>c\<close> and then fails, and the reader
  comes back. The callback for \<open>c\<close> was suspended behind \<open>b\<close>, and the abort
  discards what is in the queue: of the three tokens emitted, two reach the stream.
\<close>

theorem emitted_token_dropped_counterexample:
  "written (run ex_env
      [Notify (LLMNewToken ''a''), Read, Notify (LLMNewToken ''b''), Notify (LLMNewToken ''c''),
       Notify (LLMError (ServiceError ''model'')), Read] new_TransformStream) = [[97], [98]]
   \<and> map (encode ex_env) [''a'', ''b'', ''c''] = [[97], [98], [99]]"
  by (simp add: new_TransformStream_def handleLLMNewToken_def handleLLMError_def await_ready_def
        writer_write_def writer_abort_def consumer_read_def ex_env_def)

text \<open>
  C6, as the code has it. In every run, whatever the completion service emits and
  whenever the reader takes chunks, the chunks that have reached the output stream
  are an initial part of the encodings of the emitted tokens, in the order emitted:
  none is repeated, moved or passed over. When the service emits tokens and then ends,
  all of them have reached the stream once the reader has taken as many chunks as
  there were tokens. In the run where the reader takes each chunk before the next
  notification, all emitted tokens have reached the stream also while the run is in
  progress and after it has failed.
\<close>

theorem written_initial_part_of_emitted:
  "prefix (written (run env steps new_TransformStream))
     (map (encode env) (tokens_of (notified steps)))
   \<and> (notified steps = map LLMNewToken tokens @ [LLMEnd] \<longrightarrow>
        written (run env (steps @ replicate (length tokens) Read) new_TransformStream) =
          map (encode env) tokens)
   \<and> written (deliver env (map LLMNewToken tokens) new_TransformStream) = map (encode env) tokens
   \<and> written (deliver env (map LLMNewToken tokens @ [LLMError e]) new_TransformStream) =
       map (encode env) tokens"
  by (simp add: run_written_prefix run_normal_written deliver_append deliver_tokens_new
        deliver_error_idle)

theorem written_initial_part_of_emitted_witness:
  "notified [Notify (LLMNewToken ''Hi''), Notify (LLMNewToken '' there''), Read, Notify LLMEnd] =
     map LLMNewToken [''Hi'', '' there''] @ [LLMEnd]
   \<and> written (run ex_env
        ([Notify (LLMNewToken ''Hi''), Notify (LLMNewToken '' there''), Read, Notify LLMEnd]
           @ replicate (length [''Hi'', '' there'']) Read) new_TransformStream) =
       [[72, 105], [32, 116, 104, 101, 114, 101]]"
  using written_initial_part_of_emitted
    [of ex_env "[Notify (LLMNewToken ''Hi''), Notify (LLMNewToken '' there''), Read, Notify LLMEnd]"
       "[''Hi'', '' there'']"]
  by (simp add: ex_env_def)



subsection \<open>The query function\<close>

lemma show_nat_0: "show_nat 0 = ''0''"
  by (simp add: show_nat.simps digit_char_def)

text \<open>
  C1. When the embedding of the question succeeds and the index answers the query
  with an empty list of matches, \<^verbatim>\<open>queryPineconeVectorStoreAndQueryLLM\<close> returns
  \<^verbatim>\<open>undefined\<close> (no stream, and nothing thrown), and issues no request to the
  completion chain: the requests it issues are the three log lines, the embedding
  and the query.
\<close>

theorem no_matches_no_stream:
  assumes "embedQuery env question w = (Inr queryEmbedding, w1)"
    and "index_query client indexName
           \<lparr>topK = 10, vector = queryEmbedding, includeMetadata = True, includeValues = True\<rparr> w1 =
         (Inr [], w2)"
  shows "queryPineconeVectorStoreAndQueryLLM env client indexName question (tr, w) =
           (Inr None,
            (tr @ [ConsoleLog ''Querying Pinecone vector store...'',
                   EmbedQuery question,
                   Query indexName \<lparr>topK = 10, vector = queryEmbedding,
                                     includeMetadata = True, includeValues = True\<rparr>,
                   ConsoleLog ''Found 0 matches...'',
                   ConsoleLog (''Asking question: '' @ question @ ''...''),
                   ConsoleLog ''Since there are no matches, GPT will not be queried.''], w2))
       \<and> filter is_ChainCall
            (fst (snd (queryPineconeVectorStoreAndQueryLLM env client indexName question (tr, w)))) =
          filter is_ChainCall tr"
  using assms
  by (simp add: queryPineconeVectorStoreAndQueryLLM_def perform_def console_log_def emit_def
        show_nat_0)

theorem no_matches_no_stream_witness:
  "queryPineconeVectorStoreAndQueryLLM ex_env (ex_client []) ''docs'' [] ([], [''docs'']) =
     (Inr None,
      ([ConsoleLog ''Querying Pinecone vector store...'',
        EmbedQuery [],
        Query ''docs'' \<lparr>topK = 10, vector = [], includeMetadata = True, includeValues = True\<rparr>,
        ConsoleLog ''Found 0 matches...'',
        ConsoleLog ''Asking question: ...'',
        ConsoleLog ''Since there are no matches, GPT will not be queried.''], [''docs'']))"
  using no_matches_no_stream [where env = ex_env and client = "ex_client []" and question = "[]"
          and w = "[''docs'']" and ?w1.0 = "[''docs'']" and ?w2.0 = "[''docs'']"
          and queryEmbedding = "[]" and indexName = "''docs''" and tr = "[]"]
  by (simp add: ex_env_def ex_client_def)





subsection \<open>The upsert loop\<close>

lemma upsertLoop_done:
  "\<not> idx < length chunks \<Longrightarrow>
     upsertLoop env client indexName txtPath chunks embs idx batch s = (Inr (), s)"
  by (simp add: upsertLoop.simps)

lemma upsertLoop_keep:
  "idx < length chunks \<Longrightarrow> length batch + 1 \<noteq> batchSize \<Longrightarrow> idx \<noteq> length chunks - 1 \<Longrightarrow>
     upsertLoop env client indexName txtPath chunks embs idx batch s =
     upsertLoop env client indexName txtPath chunks embs (idx + 1)
       (batch @ [make_vector env txtPath chunks embs idx]) s"
  by (subst upsertLoop.simps) (simp add: Let_def)

lemma upsertLoop_flush:
  "idx < length chunks \<Longrightarrow> length batch + 1 = batchSize \<or> idx = length chunks - 1 \<Longrightarrow>
     upsertLoop env client indexName txtPath chunks embs idx batch s =
     (case perform (Upsert indexName (batch @ [make_vector env txtPath chunks embs idx]))
             (index_upsert client indexName (batch @ [make_vector env txtPath chunks embs idx])) s of
        (Inl e, s') \<Rightarrow> (Inl e, s')
      | (Inr u, s') \<Rightarrow> upsertLoop env client indexName txtPath chunks embs (idx + 1) [] s')"
  by (subst upsertLoop.simps) (simp add: Let_def)

lemma upsertLoop_batches:
  assumes "length batch < batchSize" and "batch = [] \<or> idx < length chunks"
    and "upsertLoop env client indexName txtPath chunks embs idx batch s = (r, s')"
  shows "\<exists>bs. fst s' = fst s @ map (Upsert indexName) bs
            \<and> (\<forall>b \<in> set bs. b \<noteq> [] \<and> length b \<le> batchSize)
            \<and> (\<forall>b \<in> set (butlast bs). length b = batchSize)
            \<and> prefix (concat bs) (batch @ map (make_vector env txtPath chunks embs) [idx..<length chunks])
            \<and> (r = Inr () \<longrightarrow>
                 concat bs = batch @ map (make_vector env txtPath chunks embs) [idx..<length chunks])"
  using assms
proof (induction env client indexName txtPath chunks embs idx batch s
        rule: upsertLoop.induct)
  case (1 env client indexName txtPath chunks embs idx batch s)
  let ?mk = "make_vector env txtPath chunks embs"
  let ?batch' = "batch @ [?mk idx]"
  show ?case
  proof (cases "idx < length chunks")
    case False
    with "1.prems" have "s' = s" "r = Inr ()" "batch = []"
      by (simp_all add: upsertLoop_done)
    with False show ?thesis
      by (intro exI[of _ "[]"]) simp
  next
    case lt: True
    then have upt: "[idx..<length chunks] = idx # [idx + 1..<length chunks]"
      by (simp add: upt_conv_Cons)
    show ?thesis
    proof (cases "length ?batch' = batchSize \<or> idx = length chunks - 1")
      case False
      then have run: "upsertLoop env client indexName txtPath chunks embs (idx + 1) ?batch' s = (r, s')"
        using "1.prems"(3) lt by (simp add: upsertLoop_keep)
      from False "1.prems"(1) have len: "length ?batch' < batchSize" by simp
      from False lt have more: "idx + 1 < length chunks" by auto
      from "1.IH"(2)[OF lt refl refl False len _ run] more
      obtain bs where "fst s' = fst s @ map (Upsert indexName) bs"
        "\<forall>b \<in> set bs. b \<noteq> [] \<and> length b \<le> batchSize"
        "\<forall>b \<in> set (butlast bs). length b = batchSize"
        "prefix (concat bs) (?batch' @ map ?mk [idx + 1..<length chunks])"
        "r = Inr () \<longrightarrow> concat bs = ?batch' @ map ?mk [idx + 1..<length chunks]"
        by auto
      then show ?thesis
        by (intro exI[of _ bs]) (simp add: upt)
    next
      case flush: True
      obtain r1 s1 where p: "perform (Upsert indexName ?batch') (index_upsert client indexName ?batch') s = (r1, s1)"
        by (cases "perform (Upsert indexName ?batch') (index_upsert client indexName ?batch') s")
      then have tr1: "fst s1 = fst s @ [Upsert indexName ?batch']"
        by (auto simp: perform_def split: prod.splits)
      from "1.prems"(1) have len': "length ?batch' \<le> batchSize" by simp
      show ?thesis
      proof (cases r1)
        case (Inl e)
        with p flush lt "1.prems"(3) have "r = Inl e" "s' = s1"
          by (simp_all add: upsertLoop_flush)
        with tr1 len' show ?thesis
          by (intro exI[of _ "[?batch']"]) (simp add: upt)
      next
        case (Inr u)
        with p flush lt "1.prems"(3)
        have run: "upsertLoop env client indexName txtPath chunks embs (idx + 1) [] s1 = (r, s')"
          by (simp add: upsertLoop_flush)
        have pos: "0 < batchSize" by (simp add: batchSize_def)
        from "1.IH"(1)[OF lt refl refl flush p[symmetric] Inr _ _ run] pos
        obtain bs where bs: "fst s' = fst s1 @ map (Upsert indexName) bs"
          "\<forall>b \<in> set bs. b \<noteq> [] \<and> length b \<le> batchSize"
          "\<forall>b \<in> set (butlast bs). length b = batchSize"
          "prefix (concat bs) (map ?mk [idx + 1..<length chunks])"
          "r = Inr () \<longrightarrow> concat bs = map ?mk [idx + 1..<length chunks]"
          by auto
        have last: "length ?batch' \<noteq> batchSize \<Longrightarrow> bs = []"
        proof -
          assume "length ?batch' \<noteq> batchSize"
          with flush lt have e: "[idx + 1..<length chunks] = []" by auto
          have "concat bs = []" using bs(4) unfolding e by simp
          with bs(2) show "bs = []" by (cases bs) auto
        qed
        from bs tr1 len' last show ?thesis
          by (intro exI[of _ "?batch' # bs"]) (auto simp: upt)
      qed
    qed
  qed
qed

lemma upsert_batches_append:
  "upsert_batches (evs @ evs') = upsert_batches evs @ upsert_batches evs'"
  by (induction evs rule: upsert_batches.induct) simp_all

lemma upsert_batches_Upserts:
  "upsert_batches (map (Upsert indexName) bs) = bs"
  by (induction bs) simp_all

lemma embed_requests_append:
  "embed_requests (evs @ evs') = embed_requests evs @ embed_requests evs'"
  by (induction evs rule: embed_requests.induct) simp_all

lemma embed_requests_Upserts:
  "embed_requests (map (Upsert indexName) bs) = []"
  by (induction bs) simp_all

lemma processDoc_unfold:
  "processDoc env client indexName doc s =
    (case embedDocuments env (doc_texts env doc) (snd s) of
       (Inl e, w1) \<Rightarrow> (Inl e, (fst s @ doc_prologue env doc, w1))
     | (Inr embs, w1) \<Rightarrow>
         (case upsertLoop env client indexName (doc_source doc) (doc_chunks env doc) embs 0 []
                 (fst s @ doc_prologue env doc @ doc_embedded env doc, w1) of
            (Inl e, s9) \<Rightarrow> (Inl e, s9)
          | (Inr u, s9) \<Rightarrow> (Inr (), (fst s9 @ doc_epilogue env doc, snd s9))))"
  by (simp add: processDoc_def perform_def console_log_def emit_def doc_texts_def doc_chunks_def
        doc_prologue_def doc_embedded_def doc_epilogue_def Let_def
      split: prod.splits sum.splits)

subsection \<open>One document, and the loop over the documents\<close>

lemma doc_events_no_upsert [simp]:
  "upsert_batches (doc_prologue env doc) = []"
  "upsert_batches (doc_embedded env doc) = []"
  "upsert_batches (doc_epilogue env doc) = []"
  by (simp_all add: doc_prologue_def doc_embedded_def doc_epilogue_def)

lemma doc_events_embed [simp]:
  "embed_requests (doc_prologue env doc) = [doc_texts env doc]"
  "embed_requests (doc_embedded env doc) = []"
  "embed_requests (doc_epilogue env doc) = []"
  by (simp_all add: doc_prologue_def doc_embedded_def doc_epilogue_def)

lemma processDoc_embed_fails:
  assumes "embedDocuments env (doc_texts env doc) (snd s) = (Inl e, w1)"
  shows "processDoc env client indexName doc s = (Inl e, (fst s @ doc_prologue env doc, w1))"
  using assms by (simp add: processDoc_unfold)

lemma processDoc_embedded:
  assumes "embedDocuments env (doc_texts env doc) (snd s) = (Inr embs, w1)"
    and "processDoc env client indexName doc s = (r, s')"
  shows "\<exists>bs. fst s' = fst s @ doc_prologue env doc @ doc_embedded env doc @
                   map (Upsert indexName) bs @ (case r of Inl e \<Rightarrow> [] | Inr u \<Rightarrow> doc_epilogue env doc)
            \<and> (\<forall>b \<in> set bs. b \<noteq> [] \<and> length b \<le> batchSize)
            \<and> (\<forall>b \<in> set (butlast bs). length b = batchSize)
            \<and> prefix (concat bs) (doc_vectors env doc embs)
            \<and> (r = Inr () \<longrightarrow> concat bs = doc_vectors env doc embs)"
proof -
  let ?s8 = "(fst s @ doc_prologue env doc @ doc_embedded env doc, w1)"
  obtain r9 s9 where loop:
    "upsertLoop env client indexName (doc_source doc) (doc_chunks env doc) embs 0 [] ?s8 = (r9, s9)"
    by (cases "upsertLoop env client indexName (doc_source doc) (doc_chunks env doc) embs 0 [] ?s8")
  have pos: "length ([]::vector_record list) < batchSize" by (simp add: batchSize_def)
  from upsertLoop_batches[OF pos _ loop]
  obtain bs where bs: "fst s9 = fst ?s8 @ map (Upsert indexName) bs"
    "\<forall>b \<in> set bs. b \<noteq> [] \<and> length b \<le> batchSize"
    "\<forall>b \<in> set (butlast bs). length b = batchSize"
    "prefix (concat bs) (doc_vectors env doc embs)"
    "r9 = Inr () \<longrightarrow> concat bs = doc_vectors env doc embs"
    by (auto simp: doc_vectors_def)
  show ?thesis
  proof (cases r9)
    case (Inl e)
    with assms loop have "r = Inl e" "s' = s9" by (simp_all add: processDoc_unfold)
    with bs show ?thesis by (intro exI[of _ bs]) simp
  next
    case (Inr u)
    with assms loop have "r = Inr ()" "fst s' = fst s9 @ doc_epilogue env doc"
      by (auto simp: processDoc_unfold)
    with bs Inr show ?thesis by (intro exI[of _ bs]) simp
  qed
qed

lemma processDocs_append:
  "processDocs env client indexName (docs @ docs') s =
     (case processDocs env client indexName docs s of
        (Inl e, s') \<Rightarrow> (Inl e, s')
      | (Inr u, s') \<Rightarrow> processDocs env client indexName docs' s')"
  by (induction docs arbitrary: s) (auto split: prod.splits sum.splits)

lemma vec_id_doc_vectors:
  "map vec_id (doc_vectors env doc embs) =
     map (\<lambda>idx. doc_source doc @ ''_'' @ show_nat idx) [0..<length (doc_chunks env doc)]"
  by (simp add: doc_vectors_def make_vector_def Let_def)

lemma processDoc_ids:
  assumes "processDoc env client indexName doc s = (Inr (), s')"
  shows "\<exists>new. fst s' = fst s @ new
           \<and> map vec_id (concat (upsert_batches new)) =
               map (\<lambda>idx. doc_source doc @ ''_'' @ show_nat idx) [0..<length (doc_chunks env doc)]"
proof (cases "embedDocuments env (doc_texts env doc) (snd s)")
  case (Pair r1 w1)
  show ?thesis
  proof (cases r1)
    case (Inl e1)
    with Pair assms show ?thesis by (simp add: processDoc_embed_fails)
  next
    case (Inr embs)
    with Pair processDoc_embedded[OF _ assms]
    obtain bs where "fst s' = fst s @ doc_prologue env doc @ doc_embedded env doc @
                   map (Upsert indexName) bs @ doc_epilogue env doc"
       "concat bs = doc_vectors env doc embs"
      by auto
    then show ?thesis
      by (intro exI[of _ "doc_prologue env doc @ doc_embedded env doc @
                   map (Upsert indexName) bs @ doc_epilogue env doc"])
         (simp add: upsert_batches_append upsert_batches_Upserts vec_id_doc_vectors)
  qed
qed

lemma processDocs_ids:
  assumes "processDocs env client indexName docs s = (Inr (), s')"
  shows "\<exists>new. fst s' = fst s @ new
           \<and> map vec_id (concat (upsert_batches new)) =
               concat (map (\<lambda>doc. map (\<lambda>idx. doc_source doc @ ''_'' @ show_nat idx)
                                      [0..<length (doc_chunks env doc)]) docs)"
  using assms
proof (induction docs arbitrary: s)
  case Nil
  then show ?case by simp
next
  case (Cons doc docs)
  then obtain s1 where d: "processDoc env client indexName doc s = (Inr (), s1)"
    and rest: "processDocs env client indexName docs s1 = (Inr (), s')"
    by (auto split: prod.splits sum.splits)
  from processDoc_ids[OF d] obtain new1 where n1: "fst s1 = fst s @ new1"
    "map vec_id (concat (upsert_batches new1)) =
       map (\<lambda>idx. doc_source doc @ ''_'' @ show_nat idx) [0..<length (doc_chunks env doc)]"
    by blast
  from Cons.IH[OF rest] obtain new2 where n2: "fst s' = fst s1 @ new2"
    "map vec_id (concat (upsert_batches new2)) =
       concat (map (\<lambda>doc. map (\<lambda>idx. doc_source doc @ ''_'' @ show_nat idx)
                                      [0..<length (doc_chunks env doc)]) docs)"
    by blast
  from n1 n2 show ?case
    by (intro exI[of _ "new1 @ new2"]) (simp add: upsert_batches_append)
qed

subsection \<open>Example runs\<close>

lemma ex_upsert_ok: "index_upsert (ex_client []) indexName vectors w = (Inr (), w)"
  by (simp add: ex_client_def)

lemma ex_chunks3: "doc_chunks ex_env (ex_doc ''a#b#c'' ''a.txt'') =
   [\<lparr>chunk_pageContent = ''a'', chunk_metadata = []\<rparr>,
    \<lparr>chunk_pageContent = ''b'', chunk_metadata = []\<rparr>,
    \<lparr>chunk_pageContent = ''c'', chunk_metadata = []\<rparr>]"
  by (simp add: doc_chunks_def ex_env_def ex_doc_def)

lemma ex_texts3: "doc_texts ex_env (ex_doc ''a#b#c'' ''a.txt'') = [''a'', ''b'', ''c'']"
  by (simp add: doc_texts_def ex_chunks3 replace_newlines_def newline_def)

lemma ex_embed3: "embedDocuments ex_env [''a'', ''b'', ''c''] w = (Inr [[1], [1], [1]], w)"
  by (simp add: ex_env_def)

lemma ex_processDoc3:
  "processDoc ex_env (ex_client []) ''docs'' (ex_doc ''a#b#c'' ''a.txt'') s =
     (Inr (), (fst s @ doc_prologue ex_env (ex_doc ''a#b#c'' ''a.txt'') @
                 doc_embedded ex_env (ex_doc ''a#b#c'' ''a.txt'') @
                 [Upsert ''docs'' (doc_vectors ex_env (ex_doc ''a#b#c'' ''a.txt'') [[1], [1], [1]])] @
                 doc_epilogue ex_env (ex_doc ''a#b#c'' ''a.txt''), snd s))"
  by (simp add: processDoc_unfold ex_texts3 ex_chunks3 ex_embed3 upsertLoop_keep upsertLoop_flush
        upsertLoop_done batchSize_def perform_def ex_upsert_ok doc_vectors_def upt_conv_Cons)

lemma updatePinecone_unfold:
  "updatePinecone env client indexName docs s =
     processDocs env client indexName docs
       (fst s @ [ConsoleLog ''Retrieving Pinecone index...'',
                 ConsoleLog (''Pinecone index retrieved: '' @ indexName)], snd s)"
  by (simp add: updatePinecone_def console_log_def emit_def)

lemma ex_updatePinecone3:
  "updatePinecone ex_env (ex_client []) ''docs'' [ex_doc ''a#b#c'' ''a.txt''] s =
     (Inr (), (fst s @ [ConsoleLog ''Retrieving Pinecone index...'',
                        ConsoleLog ''Pinecone index retrieved: docs''] @
                 doc_prologue ex_env (ex_doc ''a#b#c'' ''a.txt'') @
                 doc_embedded ex_env (ex_doc ''a#b#c'' ''a.txt'') @
                 [Upsert ''docs'' (doc_vectors ex_env (ex_doc ''a#b#c'' ''a.txt'') [[1], [1], [1]])] @
                 doc_epilogue ex_env (ex_doc ''a#b#c'' ''a.txt''), snd s))"
  by (simp add: updatePinecone_unfold ex_processDoc3)

lemma show_nat_digits:
  "show_nat 0 = ''0''" "show_nat 1 = ''1''" "show_nat 2 = ''2''" "show_nat 3 = ''3''"
  "show_nat (Suc 0) = ''1''" "show_nat (Suc (Suc 0)) = ''2''"
  by (simp_all add: show_nat.simps digit_char_def)

lemma ex_texts_fail: "doc_texts ex_env (ex_doc ''fail'' ''b.txt'') = [''fail'']"
  by (simp add: doc_texts_def doc_chunks_def ex_env_def ex_doc_def replace_newlines_def newline_def)

lemma ex_embed_fail: "embedDocuments ex_env [''fail''] w = (Inl (ServiceError ''embed''), w)"
  by (simp add: ex_env_def)

lemma ex_processDoc_fail:
  "processDoc ex_env client indexName (ex_doc ''fail'' ''b.txt'') s =
     (Inl (ServiceError ''embed''), (fst s @ doc_prologue ex_env (ex_doc ''fail'' ''b.txt''), snd s))"
  by (rule processDoc_embed_fails) (simp only: ex_texts_fail ex_embed_fail)

lemma ex_chunks_nl: "doc_chunks ex_env (ex_doc ex_two_lines ''n.txt'') =
   [\<lparr>chunk_pageContent = ex_two_lines, chunk_metadata = []\<rparr>]"
  by (simp add: doc_chunks_def ex_env_def ex_doc_def ex_two_lines_def newline_def)

lemma ex_texts_nl: "doc_texts ex_env (ex_doc ex_two_lines ''n.txt'') = [''a b'']"
  by (simp add: doc_texts_def ex_chunks_nl) (simp add: replace_newlines_def ex_two_lines_def newline_def)

lemma ex_embed_nl: "embedDocuments ex_env [''a b''] w = (Inr [[3]], w)"
  by (simp add: ex_env_def)

lemma ex_processDoc_nl:
  "fst (processDoc ex_env (ex_client []) ''docs'' (ex_doc ex_two_lines ''n.txt'') s) = Inr ()
   \<and> snd (snd (processDoc ex_env (ex_client []) ''docs'' (ex_doc ex_two_lines ''n.txt'') s)) = snd s"
  by (simp add: processDoc_unfold ex_texts_nl ex_chunks_nl ex_embed_nl upsertLoop_keep upsertLoop_flush
        upsertLoop_done batchSize_def perform_def ex_upsert_ok)

subsection \<open>Batches\<close>

text \<open>
  C3. While \<^verbatim>\<open>updatePinecone\<close> processes a document whose chunks have been
  embedded, every upsert request it issues carries at least one and at most
  \<open>batchSize\<close> vectors, and the batches issued so far, concatenated, are an initial
  part of the vector records in chunk order. When the document is processed to the
  end (no upsert throws), the concatenation is the whole sequence: the last batch,
  full or not, has been upserted, and no vector is dropped or repeated.
\<close>

theorem upsert_batches_bounded_and_complete:
  assumes "embedDocuments env (doc_texts env doc) w = (Inr embeddingsArrays, w1)"
    and "processDoc env client indexName doc (tr, w) = (r, (tr', w'))"
  shows "\<exists>new. tr' = tr @ new
           \<and> (\<forall>b \<in> set (upsert_batches new). b \<noteq> [] \<and> length b \<le> batchSize)
           \<and> prefix (concat (upsert_batches new)) (doc_vectors env doc embeddingsArrays)
           \<and> (r = Inr () \<longrightarrow> concat (upsert_batches new) = doc_vectors env doc embeddingsArrays)"
proof -
  from assms(1) have emb: "embedDocuments env (doc_texts env doc) (snd (tr, w)) = (Inr embeddingsArrays, w1)"
    by simp
  from processDoc_embedded[OF emb assms(2)]
  obtain bs where bs: "tr' = tr @ doc_prologue env doc @ doc_embedded env doc @
                   map (Upsert indexName) bs @ (case r of Inl e \<Rightarrow> [] | Inr u \<Rightarrow> doc_epilogue env doc)"
    "\<forall>b \<in> set bs. b \<noteq> [] \<and> length b \<le> batchSize"
    "prefix (concat bs) (doc_vectors env doc embeddingsArrays)"
    "r = Inr () \<longrightarrow> concat bs = doc_vectors env doc embeddingsArrays"
    by auto
  define new where "new = doc_prologue env doc @ doc_embedded env doc @
          map (Upsert indexName) bs @ (case r of Inl e \<Rightarrow> [] | Inr u \<Rightarrow> doc_epilogue env doc)"
  have ub: "upsert_batches new = bs"
    unfolding new_def by (cases r) (simp_all add: upsert_batches_append upsert_batches_Upserts)
  have tr: "tr' = tr @ new"
    using bs(1) by (simp add: new_def)
  from tr ub bs(2-4) show ?thesis
    by (intro exI[of _ new]) simp
qed

theorem upsert_batches_bounded_and_complete_witness:
  "\<exists>new. processDoc ex_env (ex_client []) ''docs'' (ex_doc ''a#b#c'' ''a.txt'') ([], []) =
            (Inr (), (new, []))
        \<and> (\<forall>b \<in> set (upsert_batches new). b \<noteq> [] \<and> length b \<le> batchSize)
        \<and> concat (upsert_batches new) =
            doc_vectors ex_env (ex_doc ''a#b#c'' ''a.txt'') [[1], [1], [1]]"
proof -
  let ?d = "ex_doc ''a#b#c'' ''a.txt''"
  have emb: "embedDocuments ex_env (doc_texts ex_env ?d) [] = (Inr [[1], [1], [1]], [])"
    by (simp only: ex_texts3 ex_embed3)
  obtain T where run: "processDoc ex_env (ex_client []) ''docs'' ?d ([], []) = (Inr (), (T, []))"
    using ex_processDoc3[of "([], [])"] by simp
  from upsert_batches_bounded_and_complete[OF emb run]
  obtain new where n: "T = [] @ new"
    "\<forall>b \<in> set (upsert_batches new). b \<noteq> [] \<and> length b \<le> batchSize"
    "Inr () = (Inr ()::error + unit) \<longrightarrow> concat (upsert_batches new) = doc_vectors ex_env ?d [[1], [1], [1]]"
    by blast
  with run show ?thesis
    by (intro exI[of _ new]) simp
qed

subsection \<open>Vector ids\<close>

text \<open>
  C2. Two runs of \<^verbatim>\<open>updatePinecone\<close> on the same documents that both return, from
  whatever states of the index and of the embedding service, upsert the same ids:
  for each document in turn, with source \<open>s\<close> and \<open>n\<close> chunks, the ids
  \<open>s_0\<close>, ..., \<open>s_(n-1)\<close>, whatever the embeddings were. The second run
  therefore addresses the records of the first by their ids.
\<close>

theorem reingestion_same_ids:
  assumes "updatePinecone env client indexName docs (tr, w) = (Inr (), (tr1, w1))"
    and "updatePinecone env client indexName docs (tr', w') = (Inr (), (tr2, w2))"
  shows "\<exists>new1 new2. tr1 = tr @ new1 \<and> tr2 = tr' @ new2
           \<and> map vec_id (concat (upsert_batches new1)) =
               concat (map (\<lambda>doc. map (\<lambda>idx. doc_source doc @ ''_'' @ show_nat idx)
                                      [0..<length (doc_chunks env doc)]) docs)
           \<and> map vec_id (concat (upsert_batches new2)) =
               concat (map (\<lambda>doc. map (\<lambda>idx. doc_source doc @ ''_'' @ show_nat idx)
                                      [0..<length (doc_chunks env doc)]) docs)"
proof -
  let ?ids = "concat (map (\<lambda>doc. map (\<lambda>idx. doc_source doc @ ''_'' @ show_nat idx)
                                      [0..<length (doc_chunks env doc)]) docs)"
  let ?logs = "[ConsoleLog ''Retrieving Pinecone index...'',
                ConsoleLog (''Pinecone index retrieved: '' @ indexName)]"
  have one: "\<exists>new. t1 = t @ new \<and> map vec_id (concat (upsert_batches new)) = ?ids"
    if "updatePinecone env client indexName docs (t, v) = (Inr (), (t1, v1))" for t v t1 v1
  proof -
    from that have "processDocs env client indexName docs (t @ ?logs, v) = (Inr (), (t1, v1))"
      by (simp add: updatePinecone_unfold)
    from processDocs_ids[OF this] obtain new where "t1 = (t @ ?logs) @ new"
      "map vec_id (concat (upsert_batches new)) = ?ids" by auto
    then show ?thesis
      by (intro exI[of _ "?logs @ new"]) (simp add: upsert_batches_append)
  qed
  from one[OF assms(1)] one[OF assms(2)] show ?thesis by blast
qed

theorem reingestion_same_ids_witness:
  "\<exists>new1 new2.
      updatePinecone ex_env (ex_client []) ''docs'' [ex_doc ''a#b#c'' ''a.txt''] ([], []) =
        (Inr (), (new1, []))
    \<and> updatePinecone ex_env (ex_client []) ''docs'' [ex_doc ''a#b#c'' ''a.txt''] (new1, []) =
        (Inr (), (new1 @ new2, []))
    \<and> map vec_id (concat (upsert_batches new1)) = [''a.txt_0'', ''a.txt_1'', ''a.txt_2'']
    \<and> map vec_id (concat (upsert_batches new2)) = [''a.txt_0'', ''a.txt_1'', ''a.txt_2'']"
proof -
  let ?docs = "[ex_doc ''a#b#c'' ''a.txt'']"
  obtain tr1 where run1: "updatePinecone ex_env (ex_client []) ''docs'' ?docs ([], []) = (Inr (), (tr1, []))"
    using ex_updatePinecone3[of "([], [])"] by simp
  obtain tr2 where run2: "updatePinecone ex_env (ex_client []) ''docs'' ?docs (tr1, []) = (Inr (), (tr2, []))"
    using ex_updatePinecone3[of "(tr1, [])"] by simp
  from reingestion_same_ids[OF run1 run2]
  obtain new1 new2 where n: "tr1 = [] @ new1" "tr2 = tr1 @ new2"
    "map vec_id (concat (upsert_batches new1)) =
       concat (map (\<lambda>doc. map (\<lambda>idx. doc_source doc @ ''_'' @ show_nat idx)
                              [0..<length (doc_chunks ex_env doc)]) ?docs)"
    "map vec_id (concat (upsert_batches new2)) =
       concat (map (\<lambda>doc. map (\<lambda>idx. doc_source doc @ ''_'' @ show_nat idx)
                              [0..<length (doc_chunks ex_env doc)]) ?docs)"
    by blast
  have ids: "concat (map (\<lambda>doc. map (\<lambda>idx. doc_source doc @ ''_'' @ show_nat idx)
                              [0..<length (doc_chunks ex_env doc)]) ?docs) =
             [''a.txt_0'', ''a.txt_1'', ''a.txt_2'']"
    by (simp add: ex_chunks3 upt_conv_Cons show_nat_digits) (simp add: ex_doc_def)
  from run1 run2 n ids show ?thesis
    by (intro exI[of _ new1] exI[of _ new2]) simp
qed

subsection \<open>Failure\<close>

lemma batches_of_Nil [simp]: "batches_of n [] = []"
  by (simp add: batches_of.simps)

lemma batches_of_step:
  "0 < n \<Longrightarrow> xs \<noteq> [] \<Longrightarrow> batches_of n xs = take n xs # batches_of n (drop n xs)"
  by (subst batches_of.simps) simp

lemma upsertLoop_upsert_all:
  "length batch < batchSize \<Longrightarrow> (batch \<noteq> [] \<longrightarrow> idx < length chunks) \<Longrightarrow>
     upsertLoop env client indexName txtPath chunks embs idx batch s =
     upsert_all client indexName
       (batches_of batchSize (batch @ map (make_vector env txtPath chunks embs) [idx..<length chunks])) s"
proof (induction env client indexName txtPath chunks embs idx batch s rule: upsertLoop.induct)
  case (1 env client indexName txtPath chunks embs idx batch s)
  let ?mk = "make_vector env txtPath chunks embs"
  let ?b = "batch @ [?mk idx]"
  show ?case
  proof (cases "idx < length chunks")
    case False
    with "1.prems" show ?thesis by (simp add: upsertLoop_done)
  next
    case True
    then have upt: "[idx..<length chunks] = idx # [idx + 1..<length chunks]"
      by (simp add: upt_conv_Cons)
    have pos: "0 < batchSize" by (simp add: batchSize_def)
    show ?thesis
    proof (cases "length ?b = batchSize \<or> idx = length chunks - 1")
      case flush: True
      have tk: "take batchSize (?b @ map ?mk [idx + 1..<length chunks]) = ?b
                \<and> drop batchSize (?b @ map ?mk [idx + 1..<length chunks]) = map ?mk [idx + 1..<length chunks]"
      proof (cases "length ?b = batchSize")
        case True
        then have eq: "batchSize = Suc (length batch)" by simp
        show ?thesis unfolding eq by simp
      next
        case False
        with flush have "idx = length chunks - 1" by simp
        with True have e: "[idx + 1..<length chunks] = []" by simp
        from "1.prems"(1) have "length ?b \<le> batchSize" by simp
        then show ?thesis unfolding e by simp
      qed
      have bs: "batches_of batchSize (batch @ map ?mk [idx..<length chunks]) =
                  ?b # batches_of batchSize (map ?mk [idx + 1..<length chunks])"
        using batches_of_step [OF pos, of "?b @ map ?mk [idx + 1..<length chunks]"] tk
        by (simp add: upt)
      have ih: "\<And>u s'. perform (Upsert indexName ?b) (index_upsert client indexName ?b) s = (Inr u, s') \<Longrightarrow>
          upsertLoop env client indexName txtPath chunks embs (idx + 1) [] s' =
          upsert_all client indexName (batches_of batchSize (map ?mk [idx + 1..<length chunks])) s'"
      proof -
        fix u s'
        assume p: "perform (Upsert indexName ?b) (index_upsert client indexName ?b) s = (Inr u, s')"
        from "1.IH"(1) [OF True refl refl flush p [symmetric] refl] pos
        show "upsertLoop env client indexName txtPath chunks embs (idx + 1) [] s' =
          upsert_all client indexName (batches_of batchSize (map ?mk [idx + 1..<length chunks])) s'"
          by simp
      qed
      show ?thesis
        using True flush ih
        by (simp add: upsertLoop_flush bs split: prod.splits sum.splits)
    next
      case keep: False
      have ih: "upsertLoop env client indexName txtPath chunks embs (idx + 1) ?b s =
          upsert_all client indexName (batches_of batchSize (?b @ map ?mk [idx + 1..<length chunks])) s"
        using "1.IH"(2) [OF True refl refl keep] keep "1.prems"(1) True by auto
      show ?thesis
        using True keep ih by (simp add: upsertLoop_keep upt)
    qed
  qed
qed

lemma upsert_all_fails_at:
  "k < length bs \<Longrightarrow>
   \<forall>i<k. index_upsert client indexName (bs ! i) (ws i) = (Inr (), ws (Suc i)) \<Longrightarrow>
   index_upsert client indexName (bs ! k) (ws k) = (Inl e, w') \<Longrightarrow>
     upsert_all client indexName bs (tr, ws 0) =
       (Inl e, (tr @ map (Upsert indexName) (take (Suc k) bs), w'))"
proof (induction k arbitrary: bs ws tr)
  case 0
  then obtain b bs' where "bs = b # bs'" by (cases bs) auto
  with 0 show ?case by (simp add: perform_def)
next
  case (Suc k)
  then obtain b bs' where bs: "bs = b # bs'" by (cases bs) auto
  from Suc.prems(2) bs have first: "index_upsert client indexName b (ws 0) = (Inr (), ws (Suc 0))"
    by auto
  have "upsert_all client indexName bs' (tr @ [Upsert indexName b], (ws \<circ> Suc) 0) =
       (Inl e, ((tr @ [Upsert indexName b]) @ map (Upsert indexName) (take (Suc k) bs'), w'))"
  proof (rule Suc.IH)
    from Suc.prems(1) bs show "k < length bs'" by simp
    from Suc.prems(2) bs
    show "\<forall>i<k. index_upsert client indexName (bs' ! i) ((ws \<circ> Suc) i) = (Inr (), (ws \<circ> Suc) (Suc i))"
      by auto
    from Suc.prems(3) bs
    show "index_upsert client indexName (bs' ! k) ((ws \<circ> Suc) k) = (Inl e, w')" by simp
  qed
  with first show ?case by (simp add: bs perform_def)
qed


lemma processDoc_upsert_fails:
  assumes "embedDocuments env (doc_texts env doc) (snd s) = (Inr embs, ws 0)"
    and "bs = batches_of batchSize (doc_vectors env doc embs)"
    and "k < length bs"
    and "\<forall>i<k. index_upsert client indexName (bs ! i) (ws i) = (Inr (), ws (Suc i))"
    and "index_upsert client indexName (bs ! k) (ws k) = (Inl e, w2)"
  shows "processDoc env client indexName doc s =
           (Inl e, (fst s @ doc_prologue env doc @ doc_embedded env doc @
                      map (Upsert indexName) (take (Suc k) bs), w2))"
proof -
  have "upsertLoop env client indexName (doc_source doc) (doc_chunks env doc) embs 0 []
          (fst s @ doc_prologue env doc @ doc_embedded env doc, ws 0) =
        upsert_all client indexName bs (fst s @ doc_prologue env doc @ doc_embedded env doc, ws 0)"
    using upsertLoop_upsert_all [of "[]" 0 "doc_chunks env doc" env client indexName "doc_source doc" embs]
    by (simp add: batchSize_def assms(2) doc_vectors_def)
  also have "\<dots> = (Inl e, ((fst s @ doc_prologue env doc @ doc_embedded env doc) @
                      map (Upsert indexName) (take (Suc k) bs), w2))"
    by (rule upsert_all_fails_at [OF assms(3,4,5)])
  finally show ?thesis
    using assms(1) by (simp add: processDoc_unfold)
qed

lemma updatePinecone_continues:
  assumes "updatePinecone env client indexName pre s0 = (Inr (), s1)"
    and "processDoc env client indexName doc s1 = (Inl e, s2)"
  shows "updatePinecone env client indexName (pre @ doc # post) s0 = (Inl e, s2)"
  using assms by (simp add: updatePinecone_unfold processDocs_append)

lemma upt_11: "[0..<11] = [0, 1, 2, 3, 4, 5, 6, 7, 8, 9, 10::nat]"
  by (simp add: upt_rec)

lemma batches_of_two:
  "0 < n \<Longrightarrow> n < length xs \<Longrightarrow> length xs \<le> 2 * n \<Longrightarrow> batches_of n xs = [take n xs, drop n xs]"
  by (subst batches_of.simps, simp, subst batches_of.simps, auto)


lemma ex_chunks11: "doc_chunks ex_env (ex_doc ''a#b#c#d#e#f#g#h#i#j#k'' ''b.txt'') =
   map (\<lambda>p. \<lparr>chunk_pageContent = p, chunk_metadata = []\<rparr>)
     [''a'', ''b'', ''c'', ''d'', ''e'', ''f'', ''g'', ''h'', ''i'', ''j'', ''k'']"
  by (simp add: doc_chunks_def ex_env_def ex_doc_def)


lemma ex_length11: "length (doc_chunks ex_env (ex_doc ''a#b#c#d#e#f#g#h#i#j#k'' ''b.txt'')) = 11"
  by (simp add: ex_chunks11)

lemma ex_texts11: "doc_texts ex_env (ex_doc ''a#b#c#d#e#f#g#h#i#j#k'' ''b.txt'') =
   [''a'', ''b'', ''c'', ''d'', ''e'', ''f'', ''g'', ''h'', ''i'', ''j'', ''k'']"
  by (simp add: doc_texts_def ex_chunks11 replace_newlines_def newline_def)

lemma ex_embed11:
  "embedDocuments ex_env [''a'', ''b'', ''c'', ''d'', ''e'', ''f'', ''g'', ''h'', ''i'', ''j'', ''k''] w =
     (Inr [[1], [1], [1], [1], [1], [1], [1], [1], [1], [1], [1]], w)"
  by (simp add: ex_env_def)


lemma show_nat_upto_10:
  "show_nat 4 = ''4''" "show_nat 5 = ''5''" "show_nat 6 = ''6''" "show_nat 7 = ''7''"
  "show_nat 8 = ''8''" "show_nat 9 = ''9''" "show_nat 10 = ''10''"
  by (simp_all add: show_nat.simps digit_char_def)

lemma ex_ids11:
  "map vec_id (doc_vectors ex_env (ex_doc ''a#b#c#d#e#f#g#h#i#j#k'' ''b.txt'') embs) =
     [''b.txt_0'', ''b.txt_1'', ''b.txt_2'', ''b.txt_3'', ''b.txt_4'', ''b.txt_5'', ''b.txt_6'',
      ''b.txt_7'', ''b.txt_8'', ''b.txt_9'', ''b.txt_10'']"
  by (simp add: vec_id_doc_vectors ex_length11 upt_11 show_nat_digits show_nat_upto_10)
     (simp add: ex_doc_def)

lemma ex_batches11:
  "batches_of batchSize (doc_vectors ex_env (ex_doc ''a#b#c#d#e#f#g#h#i#j#k'' ''b.txt'') embs) =
     [take 10 (doc_vectors ex_env (ex_doc ''a#b#c#d#e#f#g#h#i#j#k'' ''b.txt'') embs), drop 10 (doc_vectors ex_env (ex_doc ''a#b#c#d#e#f#g#h#i#j#k'' ''b.txt'') embs)]"
proof -
  have "length (doc_vectors ex_env (ex_doc ''a#b#c#d#e#f#g#h#i#j#k'' ''b.txt'') embs) = 11"
    by (simp add: doc_vectors_def ex_length11)
  then show ?thesis
    using batches_of_two [of batchSize "doc_vectors ex_env (ex_doc ''a#b#c#d#e#f#g#h#i#j#k'' ''b.txt'') embs"]
    by (simp add: batchSize_def)
qed

lemma ex_upsert_cond:
  "index_upsert (ex_client bad) indexName vectors w =
     (if set (map vec_id vectors) \<inter> set bad \<noteq> {} then (Inl (ServiceError ''upsert''), w)
      else (Inr (), w))"
  by (auto simp: ex_client_def)

lemma ex_ids3:
  "map vec_id (doc_vectors ex_env (ex_doc ''a#b#c'' ''a.txt'') embs) = [''a.txt_0'', ''a.txt_1'', ''a.txt_2'']"
  by (simp add: vec_id_doc_vectors ex_chunks3 upt_conv_Cons show_nat_digits) (simp add: ex_doc_def)

lemma ex_processDoc3_other:
  "processDoc ex_env (ex_client [''b.txt_10'']) ''docs'' (ex_doc ''a#b#c'' ''a.txt'') s =
     (Inr (), (fst s @ doc_prologue ex_env (ex_doc ''a#b#c'' ''a.txt'') @
                 doc_embedded ex_env (ex_doc ''a#b#c'' ''a.txt'') @
                 [Upsert ''docs'' (doc_vectors ex_env (ex_doc ''a#b#c'' ''a.txt'') [[1], [1], [1]])] @
                 doc_epilogue ex_env (ex_doc ''a#b#c'' ''a.txt''), snd s))"
proof -
  have u: "index_upsert (ex_client [''b.txt_10'']) ''docs'' (doc_vectors ex_env (ex_doc ''a#b#c'' ''a.txt'') [[1], [1], [1]]) w = (Inr (), w)" for w
    by (simp add: ex_upsert_cond ex_ids3)
  have "upsertLoop ex_env (ex_client [''b.txt_10'']) ''docs'' (doc_source (ex_doc ''a#b#c'' ''a.txt'')) (doc_chunks ex_env (ex_doc ''a#b#c'' ''a.txt'')) [[1], [1], [1]] 0 [] s8 =
        (Inr (), (fst s8 @ [Upsert ''docs'' (doc_vectors ex_env (ex_doc ''a#b#c'' ''a.txt'') [[1], [1], [1]])], snd s8))" for s8
    using u [of "snd s8"]
    by (simp add: ex_chunks3 upsertLoop_keep upsertLoop_flush upsertLoop_done batchSize_def
          perform_def doc_vectors_def upt_conv_Cons)
  then show ?thesis
    by (simp add: processDoc_unfold ex_texts3 ex_embed3)
qed

lemma ex_updatePinecone3_other:
  "updatePinecone ex_env (ex_client [''b.txt_10'']) ''docs'' [(ex_doc ''a#b#c'' ''a.txt'')] s =
     (Inr (), (fst s @ [ConsoleLog ''Retrieving Pinecone index...'',
                        ConsoleLog ''Pinecone index retrieved: docs''] @
                 doc_prologue ex_env (ex_doc ''a#b#c'' ''a.txt'') @
                 doc_embedded ex_env (ex_doc ''a#b#c'' ''a.txt'') @
                 [Upsert ''docs'' (doc_vectors ex_env (ex_doc ''a#b#c'' ''a.txt'') [[1], [1], [1]])] @
                 doc_epilogue ex_env (ex_doc ''a#b#c'' ''a.txt''), snd s))"
  by (simp add: updatePinecone_unfold ex_processDoc3_other)

lemma ex_upsert11:
  "index_upsert (ex_client [''b.txt_10'']) ''docs'' (take 10 (doc_vectors ex_env (ex_doc ''a#b#c#d#e#f#g#h#i#j#k'' ''b.txt'') embs)) w = (Inr (), w)"
  "index_upsert (ex_client [''b.txt_10'']) ''docs'' (drop 10 (doc_vectors ex_env (ex_doc ''a#b#c#d#e#f#g#h#i#j#k'' ''b.txt'') embs)) w =
     (Inl (ServiceError ''upsert''), w)"
  by (simp_all add: ex_upsert_cond take_map [symmetric] drop_map [symmetric] ex_ids11)

text \<open>
  C4. Let the documents before \<open>doc\<close> be processed, leaving the trace \<open>tr1\<close>.
  If the embedding request for \<open>doc\<close> throws \<open>e\<close>, then \<^verbatim>\<open>updatePinecone\<close> throws
  \<open>e\<close>, and the requests it has issued are those for the documents before, followed
  by those for \<open>doc\<close> up to the embedding request, which is the last one. If the
  embedding succeeds, the upsert requests for the first \<open>k\<close> batches of \<open>doc\<close> succeed
  and the request for the next batch throws \<open>e\<close>, then \<^verbatim>\<open>updatePinecone\<close> throws
  \<open>e\<close>, and the requests it has issued are those for the documents before, those
  for \<open>doc\<close> up to the embedding, and one upsert request for each of the first
  \<open>k + 1\<close> batches, the failing one last. In both cases this is the whole trace,
  whatever documents follow: the failing request is issued once, and nothing is
  split, embedded or upserted for a later document. (\<open>ws i\<close> is the state of the
  index service before the upsert request for batch \<open>i\<close>.)
\<close>

theorem failure_aborts_remaining_documents:
  assumes "updatePinecone env client indexName pre s0 = (Inr (), (tr1, w1))"
    and "bs = batches_of batchSize (doc_vectors env doc embs)"
  shows "(embedDocuments env (doc_texts env doc) w1 = (Inl e, w2) \<longrightarrow>
           updatePinecone env client indexName (pre @ doc # post) s0 =
             (Inl e, (tr1 @ doc_prologue env doc, w2)))
       \<and> (embedDocuments env (doc_texts env doc) w1 = (Inr embs, ws 0)
            \<and> k < length bs
            \<and> (\<forall>i<k. index_upsert client indexName (bs ! i) (ws i) = (Inr (), ws (Suc i)))
            \<and> index_upsert client indexName (bs ! k) (ws k) = (Inl e, w2) \<longrightarrow>
           updatePinecone env client indexName (pre @ doc # post) s0 =
             (Inl e, (tr1 @ doc_prologue env doc @ doc_embedded env doc @
                        map (Upsert indexName) (take (Suc k) bs), w2)))"
proof (intro conjI impI)
  assume "embedDocuments env (doc_texts env doc) w1 = (Inl e, w2)"
  then have "processDoc env client indexName doc (tr1, w1) = (Inl e, (tr1 @ doc_prologue env doc, w2))"
    using processDoc_embed_fails [of env doc "(tr1, w1)" e w2 client indexName] by simp
  from updatePinecone_continues [OF assms(1) this]
  show "updatePinecone env client indexName (pre @ doc # post) s0 =
             (Inl e, (tr1 @ doc_prologue env doc, w2))" .
next
  assume a: "embedDocuments env (doc_texts env doc) w1 = (Inr embs, ws 0)
            \<and> k < length bs
            \<and> (\<forall>i<k. index_upsert client indexName (bs ! i) (ws i) = (Inr (), ws (Suc i)))
            \<and> index_upsert client indexName (bs ! k) (ws k) = (Inl e, w2)"
  have "processDoc env client indexName doc (tr1, w1) =
           (Inl e, (fst (tr1, w1) @ doc_prologue env doc @ doc_embedded env doc @
                      map (Upsert indexName) (take (Suc k) bs), w2))"
    by (rule processDoc_upsert_fails [where ws = ws and embs = embs]) (use a assms(2) in simp_all)
  then have "processDoc env client indexName doc (tr1, w1) =
           (Inl e, (tr1 @ doc_prologue env doc @ doc_embedded env doc @
                      map (Upsert indexName) (take (Suc k) bs), w2))"
    by simp
  from updatePinecone_continues [OF assms(1) this]
  show "updatePinecone env client indexName (pre @ doc # post) s0 =
             (Inl e, (tr1 @ doc_prologue env doc @ doc_embedded env doc @
                        map (Upsert indexName) (take (Suc k) bs), w2))" .
qed

theorem failure_aborts_remaining_documents_witness:
  "fst (updatePinecone ex_env (ex_client [''b.txt_10'']) ''docs'' [(ex_doc ''a#b#c'' ''a.txt''), (ex_doc ''a#b#c#d#e#f#g#h#i#j#k'' ''b.txt''), ex_doc ''c'' ''c.txt'']
        ([], [])) = Inl (ServiceError ''upsert'')
   \<and> map (map vec_id) (upsert_batches (fst (snd
        (updatePinecone ex_env (ex_client [''b.txt_10'']) ''docs'' [(ex_doc ''a#b#c'' ''a.txt''), (ex_doc ''a#b#c#d#e#f#g#h#i#j#k'' ''b.txt''), ex_doc ''c'' ''c.txt'']
           ([], []))))) =
       [[''a.txt_0'', ''a.txt_1'', ''a.txt_2''],
        [''b.txt_0'', ''b.txt_1'', ''b.txt_2'', ''b.txt_3'', ''b.txt_4'', ''b.txt_5'', ''b.txt_6'',
         ''b.txt_7'', ''b.txt_8'', ''b.txt_9''],
        [''b.txt_10'']]
   \<and> embed_requests (fst (snd
        (updatePinecone ex_env (ex_client [''b.txt_10'']) ''docs'' [(ex_doc ''a#b#c'' ''a.txt''), (ex_doc ''a#b#c#d#e#f#g#h#i#j#k'' ''b.txt''), ex_doc ''c'' ''c.txt'']
           ([], [])))) =
       [[''a'', ''b'', ''c''], [''a'', ''b'', ''c'', ''d'', ''e'', ''f'', ''g'', ''h'', ''i'', ''j'', ''k'']]
   \<and> fst (updatePinecone ex_env (ex_client []) ''docs'' [(ex_doc ''a#b#c'' ''a.txt''), ex_doc ''fail'' ''b.txt'', ex_doc ''c'' ''c.txt'']
        ([], [])) = Inl (ServiceError ''embed'')
   \<and> map (map vec_id) (upsert_batches (fst (snd
        (updatePinecone ex_env (ex_client []) ''docs'' [(ex_doc ''a#b#c'' ''a.txt''), ex_doc ''fail'' ''b.txt'', ex_doc ''c'' ''c.txt'']
           ([], []))))) =
       [[''a.txt_0'', ''a.txt_1'', ''a.txt_2'']]
   \<and> embed_requests (fst (snd
        (updatePinecone ex_env (ex_client []) ''docs'' [(ex_doc ''a#b#c'' ''a.txt''), ex_doc ''fail'' ''b.txt'', ex_doc ''c'' ''c.txt'']
           ([], [])))) =
       [[''a'', ''b'', ''c''], [''fail'']]"
proof -
  let ?embs = "[[1], [1], [1], [1], [1], [1], [1], [1], [1], [1], [1]] :: embedding list"
  let ?bs = "batches_of batchSize (doc_vectors ex_env (ex_doc ''a#b#c#d#e#f#g#h#i#j#k'' ''b.txt'') ?embs)"
  have pre: "updatePinecone ex_env (ex_client [''b.txt_10'']) ''docs'' [(ex_doc ''a#b#c'' ''a.txt'')] ([], []) =
      (Inr (), ([ConsoleLog ''Retrieving Pinecone index...'',
                 ConsoleLog ''Pinecone index retrieved: docs''] @
                 doc_prologue ex_env (ex_doc ''a#b#c'' ''a.txt'') @ doc_embedded ex_env (ex_doc ''a#b#c'' ''a.txt'') @
                 [Upsert ''docs'' (doc_vectors ex_env (ex_doc ''a#b#c'' ''a.txt'') [[1], [1], [1]])] @
                 doc_epilogue ex_env (ex_doc ''a#b#c'' ''a.txt''), []))"
    using ex_updatePinecone3_other [of "([], [])"] by simp
  have emb: "embedDocuments ex_env (doc_texts ex_env (ex_doc ''a#b#c#d#e#f#g#h#i#j#k'' ''b.txt'')) [] = (Inr ?embs, [])"
    by (simp only: ex_texts11 ex_embed11)
  have hyp: "embedDocuments ex_env (doc_texts ex_env (ex_doc ''a#b#c#d#e#f#g#h#i#j#k'' ''b.txt'')) [] = (Inr ?embs, [])
      \<and> 1 < length ?bs
      \<and> (\<forall>i<1. index_upsert (ex_client [''b.txt_10'']) ''docs'' (?bs ! i) [] = (Inr (), []))
      \<and> index_upsert (ex_client [''b.txt_10'']) ''docs'' (?bs ! 1) [] = (Inl (ServiceError ''upsert''), [])"
    using emb by (simp add: ex_batches11 ex_upsert11)
  have run1: "updatePinecone ex_env (ex_client [''b.txt_10'']) ''docs'' ([(ex_doc ''a#b#c'' ''a.txt'')] @ (ex_doc ''a#b#c#d#e#f#g#h#i#j#k'' ''b.txt'') # [ex_doc ''c'' ''c.txt''])
        ([], []) =
      (Inl (ServiceError ''upsert''),
       (([ConsoleLog ''Retrieving Pinecone index...'',
                 ConsoleLog ''Pinecone index retrieved: docs''] @
                 doc_prologue ex_env (ex_doc ''a#b#c'' ''a.txt'') @ doc_embedded ex_env (ex_doc ''a#b#c'' ''a.txt'') @
                 [Upsert ''docs'' (doc_vectors ex_env (ex_doc ''a#b#c'' ''a.txt'') [[1], [1], [1]])] @
                 doc_epilogue ex_env (ex_doc ''a#b#c'' ''a.txt'')) @ doc_prologue ex_env (ex_doc ''a#b#c#d#e#f#g#h#i#j#k'' ''b.txt'') @ doc_embedded ex_env (ex_doc ''a#b#c#d#e#f#g#h#i#j#k'' ''b.txt'') @
          map (Upsert ''docs'') (take (Suc 1) ?bs), []))"
    using failure_aborts_remaining_documents [OF pre refl, where doc = "(ex_doc ''a#b#c#d#e#f#g#h#i#j#k'' ''b.txt'')" and embs = ?embs and ws = "\<lambda>i. []" and k = 1
        and e = "ServiceError ''upsert''" and ?w2.0 = "[]" and post = "[ex_doc ''c'' ''c.txt'']"] hyp
    by blast
  have pre2: "updatePinecone ex_env (ex_client []) ''docs'' [(ex_doc ''a#b#c'' ''a.txt'')] ([], []) =
      (Inr (), ([ConsoleLog ''Retrieving Pinecone index...'',
                 ConsoleLog ''Pinecone index retrieved: docs''] @
                 doc_prologue ex_env (ex_doc ''a#b#c'' ''a.txt'') @ doc_embedded ex_env (ex_doc ''a#b#c'' ''a.txt'') @
                 [Upsert ''docs'' (doc_vectors ex_env (ex_doc ''a#b#c'' ''a.txt'') [[1], [1], [1]])] @
                 doc_epilogue ex_env (ex_doc ''a#b#c'' ''a.txt''), []))"
    using ex_updatePinecone3 [of "([], [])"] by simp
  have emb2: "embedDocuments ex_env (doc_texts ex_env (ex_doc ''fail'' ''b.txt'')) [] =
      (Inl (ServiceError ''embed''), [])"
    by (simp only: ex_texts_fail ex_embed_fail)
  have run2: "updatePinecone ex_env (ex_client []) ''docs''
        ([(ex_doc ''a#b#c'' ''a.txt'')] @ ex_doc ''fail'' ''b.txt'' # [ex_doc ''c'' ''c.txt'']) ([], []) =
      (Inl (ServiceError ''embed''),
       (([ConsoleLog ''Retrieving Pinecone index...'',
                 ConsoleLog ''Pinecone index retrieved: docs''] @
                 doc_prologue ex_env (ex_doc ''a#b#c'' ''a.txt'') @ doc_embedded ex_env (ex_doc ''a#b#c'' ''a.txt'') @
                 [Upsert ''docs'' (doc_vectors ex_env (ex_doc ''a#b#c'' ''a.txt'') [[1], [1], [1]])] @
                 doc_epilogue ex_env (ex_doc ''a#b#c'' ''a.txt'')) @ doc_prologue ex_env (ex_doc ''fail'' ''b.txt''), []))"
    using failure_aborts_remaining_documents [OF pre2 refl, where doc = "ex_doc ''fail'' ''b.txt''" and e = "ServiceError ''embed''"
        and ?w2.0 = "[]" and post = "[ex_doc ''c'' ''c.txt'']"] emb2
    by blast
  have l1: "[(ex_doc ''a#b#c'' ''a.txt''), (ex_doc ''a#b#c#d#e#f#g#h#i#j#k'' ''b.txt''), ex_doc ''c'' ''c.txt''] = [(ex_doc ''a#b#c'' ''a.txt'')] @ (ex_doc ''a#b#c#d#e#f#g#h#i#j#k'' ''b.txt'') # [ex_doc ''c'' ''c.txt'']" by simp
  have l2: "[(ex_doc ''a#b#c'' ''a.txt''), ex_doc ''fail'' ''b.txt'', ex_doc ''c'' ''c.txt''] =
      [(ex_doc ''a#b#c'' ''a.txt'')] @ ex_doc ''fail'' ''b.txt'' # [ex_doc ''c'' ''c.txt'']" by simp
  show ?thesis
    unfolding l1 l2 run1 run2
    by (simp add: upsert_batches_append upsert_batches_Upserts embed_requests_append
          embed_requests_Upserts ex_batches11 ex_ids3 ex_ids11 ex_texts3 ex_texts11 ex_texts_fail
          take_map [symmetric] drop_map [symmetric] del: append_assoc)
qed

subsection \<open>Embedded text and stored text\<close>

lemma pageContent_doc_vectors:
  "map (\<lambda>v. map_of (vec_metadata v) ''pageContent'') (doc_vectors env doc embs) =
     map (\<lambda>chunk. Some (JStr (chunk_pageContent chunk))) (doc_chunks env doc)"
  by (rule nth_equalityI) (simp_all add: doc_vectors_def make_vector_def Let_def update_conv')

lemma replace_newlines_nth:
  "length (replace_newlines s) = length s
   \<and> (\<forall>i < length s. replace_newlines s ! i = (if s ! i = newline then CHR '' '' else s ! i))"
  by (simp add: replace_newlines_def)

text \<open>
  C10. When a document is processed to the end, the one embedding request carries,
  for each chunk in order, the chunk's \<^verbatim>\<open>pageContent\<close> with every newline replaced
  by a space (same length, every other character unchanged), while the vector
  record upserted for the chunk stores the chunk's \<^verbatim>\<open>pageContent\<close> itself under
  the metadata key \<^verbatim>\<open>pageContent\<close>. For a chunk that contains a newline the two
  texts differ.
\<close>

theorem embedded_text_and_stored_text:
  assumes "processDoc env client indexName doc (tr, w) = (Inr (), (tr', w'))"
  shows "\<exists>new. tr' = tr @ new
           \<and> embed_requests new =
               [map (\<lambda>chunk. replace_newlines (chunk_pageContent chunk)) (doc_chunks env doc)]
           \<and> map (\<lambda>v. map_of (vec_metadata v) ''pageContent'') (concat (upsert_batches new)) =
               map (\<lambda>chunk. Some (JStr (chunk_pageContent chunk))) (doc_chunks env doc)
           \<and> (\<forall>s. length (replace_newlines s) = length s
                \<and> (\<forall>i < length s. replace_newlines s ! i =
                      (if s ! i = newline then CHR '' '' else s ! i)))"
proof (cases "embedDocuments env (doc_texts env doc) (snd (tr, w))")
  case (Pair r1 w1)
  show ?thesis
  proof (cases r1)
    case (Inl e1)
    with Pair assms show ?thesis by (simp add: processDoc_embed_fails)
  next
    case (Inr embs)
    with Pair have emb: "embedDocuments env (doc_texts env doc) (snd (tr, w)) = (Inr embs, w1)"
      by simp
    from processDoc_embedded[OF emb assms]
    obtain bs where bs: "tr' = tr @ doc_prologue env doc @ doc_embedded env doc @
                   map (Upsert indexName) bs @ doc_epilogue env doc"
       "concat bs = doc_vectors env doc embs"
      by auto
    define new where "new = doc_prologue env doc @ doc_embedded env doc @
                   map (Upsert indexName) bs @ doc_epilogue env doc"
    have "upsert_batches new = bs" "embed_requests new = [doc_texts env doc]"
      by (simp_all add: new_def upsert_batches_append upsert_batches_Upserts
            embed_requests_append embed_requests_Upserts)
    with bs show ?thesis
      by (intro exI[of _ new])
         (simp add: new_def pageContent_doc_vectors doc_texts_def replace_newlines_nth)
  qed
qed

theorem embedded_text_and_stored_text_witness:
  "\<exists>new. processDoc ex_env (ex_client []) ''docs'' (ex_doc ex_two_lines ''n.txt'') ([], []) =
            (Inr (), (new, []))
        \<and> embed_requests new = [[''a b'']]
        \<and> map (\<lambda>v. map_of (vec_metadata v) ''pageContent'') (concat (upsert_batches new)) =
            [Some (JStr ex_two_lines)]
        \<and> ''a b'' \<noteq> ex_two_lines"
proof -
  let ?d = "ex_doc ex_two_lines ''n.txt''"
  obtain T where run: "processDoc ex_env (ex_client []) ''docs'' ?d ([], []) = (Inr (), (T, []))"
    using ex_processDoc_nl[of "([], [])"] by (cases "processDoc ex_env (ex_client []) ''docs'' ?d ([], [])") auto
  from embedded_text_and_stored_text[OF run]
  obtain new where n: "T = [] @ new"
    "embed_requests new =
       [map (\<lambda>chunk. replace_newlines (chunk_pageContent chunk)) (doc_chunks ex_env ?d)]"
    "map (\<lambda>v. map_of (vec_metadata v) ''pageContent'') (concat (upsert_batches new)) =
       map (\<lambda>chunk. Some (JStr (chunk_pageContent chunk))) (doc_chunks ex_env ?d)"
    by blast
  have t: "map (\<lambda>chunk. replace_newlines (chunk_pageContent chunk)) (doc_chunks ex_env ?d) = [''a b'']"
    using ex_texts_nl by (simp add: doc_texts_def)
  have ne: "''a b'' \<noteq> ex_two_lines"
    by (simp add: ex_two_lines_def newline_def)
  from run n t ne show ?thesis
    by (intro exI[of _ new]) (simp add: ex_chunks_nl)
qed

subsection \<open>The batch size\<close>

text \<open>
  The ingestion code binds \<^verbatim>\<open>batchSize\<close> to the literal 10 and reads no batch size
  from its environment. \<open>config_batchSize\<close> stands for a batch size supplied by
  configuration; no function of the pipeline reads it.
\<close>

lemma stringify_config:
  "stringify (env\<lparr>config_batchSize := n\<rparr>) v = stringify env v"
  by (cases v) (simp_all add: stringify_def)

lemma make_vector_config:
  "make_vector (env\<lparr>config_batchSize := n\<rparr>) txtPath chunks embs idx =
     make_vector env txtPath chunks embs idx"
  by (simp add: make_vector_def stringify_config)

lemma doc_values_config [simp]:
  "doc_chunks (env\<lparr>config_batchSize := n\<rparr>) doc = doc_chunks env doc"
  "doc_texts (env\<lparr>config_batchSize := n\<rparr>) doc = doc_texts env doc"
  "doc_prologue (env\<lparr>config_batchSize := n\<rparr>) doc = doc_prologue env doc"
  "doc_embedded (env\<lparr>config_batchSize := n\<rparr>) doc = doc_embedded env doc"
  "doc_epilogue (env\<lparr>config_batchSize := n\<rparr>) doc = doc_epilogue env doc"
  by (simp_all add: doc_chunks_def doc_texts_def doc_prologue_def doc_embedded_def doc_epilogue_def)

lemma upsertLoop_config:
  "upsertLoop (env\<lparr>config_batchSize := n\<rparr>) client indexName txtPath chunks embs idx batch s =
     upsertLoop env client indexName txtPath chunks embs idx batch s"
proof (induction env client indexName txtPath chunks embs idx batch s rule: upsertLoop.induct)
  case (1 env client indexName txtPath chunks embs idx batch s)
  let ?batch' = "batch @ [make_vector env txtPath chunks embs idx]"
  show ?case
  proof (cases "idx < length chunks")
    case False
    then show ?thesis by (simp add: upsertLoop_done)
  next
    case lt: True
    show ?thesis
    proof (cases "length ?batch' = batchSize \<or> idx = length chunks - 1")
      case False
      with lt "1.IH"(2)[OF lt refl refl False] show ?thesis
        by (simp add: upsertLoop_keep make_vector_config)
    next
      case flush: True
      obtain r1 s1 where p: "perform (Upsert indexName ?batch') (index_upsert client indexName ?batch') s = (r1, s1)"
        by (cases "perform (Upsert indexName ?batch') (index_upsert client indexName ?batch') s")
      show ?thesis
      proof (cases r1)
        case (Inl e)
        with p flush lt show ?thesis
          by (simp add: upsertLoop_flush make_vector_config)
      next
        case (Inr u)
        with p flush lt "1.IH"(1)[OF lt refl refl flush p[symmetric] Inr] show ?thesis
          by (simp add: upsertLoop_flush make_vector_config)
      qed
    qed
  qed
qed

lemma processDoc_config:
  "processDoc (env\<lparr>config_batchSize := n\<rparr>) client indexName doc s =
     processDoc env client indexName doc s"
  by (simp add: processDoc_unfold upsertLoop_config cong: prod.case_cong sum.case_cong)

lemma processDocs_config:
  "processDocs (env\<lparr>config_batchSize := n\<rparr>) client indexName docs s =
     processDocs env client indexName docs s"
  by (induction docs arbitrary: s) (simp_all add: processDoc_config cong: prod.case_cong sum.case_cong)

lemma processDoc_batch_sizes:
  assumes "processDoc env client indexName doc (tr, w) = (r, (tr', w'))"
  shows "\<exists>new. tr' = tr @ new
           \<and> (\<forall>b \<in> set (upsert_batches new). length b \<le> 10)
           \<and> (\<forall>b \<in> set (butlast (upsert_batches new)). length b = 10)"
proof (cases "embedDocuments env (doc_texts env doc) (snd (tr, w))")
  case (Pair r1 w1)
  show ?thesis
  proof (cases r1)
    case (Inl e1)
    with Pair assms have "tr' = tr @ doc_prologue env doc"
      by (simp add: processDoc_embed_fails)
    then show ?thesis
      by (intro exI[of _ "doc_prologue env doc"]) simp
  next
    case (Inr embs)
    with Pair have emb: "embedDocuments env (doc_texts env doc) (snd (tr, w)) = (Inr embs, w1)"
      by simp
    from processDoc_embedded[OF emb assms]
    obtain bs where bs: "tr' = tr @ doc_prologue env doc @ doc_embedded env doc @
                   map (Upsert indexName) bs @ (case r of Inl e \<Rightarrow> [] | Inr u \<Rightarrow> doc_epilogue env doc)"
      "\<forall>b \<in> set bs. b \<noteq> [] \<and> length b \<le> batchSize"
      "\<forall>b \<in> set (butlast bs). length b = batchSize"
      by auto
    define new where "new = doc_prologue env doc @ doc_embedded env doc @
          map (Upsert indexName) bs @ (case r of Inl e \<Rightarrow> [] | Inr u \<Rightarrow> doc_epilogue env doc)"
    have ub: "upsert_batches new = bs"
      unfolding new_def by (cases r) (simp_all add: upsert_batches_append upsert_batches_Upserts)
    have tr: "tr' = tr @ new"
      using bs(1) by (simp add: new_def)
    from tr ub bs(2,3) show ?thesis
      by (intro exI[of _ new]) (simp add: batchSize_def)
  qed
qed

text \<open>
  With a configured batch size of 2, a document of three chunks is upserted in one
  request of three vectors: the configured size does not bound the batches, so the
  batch size is not taken from configuration.
\<close>

theorem batch_size_from_configuration_counterexample:
  "\<not> (\<forall>b \<in> set (upsert_batches (fst (snd
          (updatePinecone ex_env (ex_client []) ''docs'' [ex_doc ''a#b#c'' ''a.txt''] ([], []))))).
        length b \<le> config_batchSize ex_env)"
  by (simp add: ex_updatePinecone3 upsert_batches_append doc_vectors_def ex_chunks3)
     (simp add: ex_env_def)

text \<open>
  C9. The batch size of \<^verbatim>\<open>updatePinecone\<close> is the constant 10 of the
  ingestion code: whatever batch size the configuration holds, the run is the same,
  every upsert request of a document carries at most 10 vectors and every request
  but the last carries exactly 10.
\<close>

theorem batch_size_is_hard_coded:
  "batchSize = 10
   \<and> updatePinecone (env\<lparr>config_batchSize := n\<rparr>) client indexName docs s =
       updatePinecone env client indexName docs s
   \<and> (\<forall>doc tr w r tr' w'.
         processDoc (env\<lparr>config_batchSize := n\<rparr>) client indexName doc (tr, w) = (r, (tr', w')) \<longrightarrow>
         (\<exists>new. tr' = tr @ new
            \<and> (\<forall>b \<in> set (upsert_batches new). length b \<le> 10)
            \<and> (\<forall>b \<in> set (butlast (upsert_batches new)). length b = 10)))"
  by (auto simp: batchSize_def updatePinecone_unfold processDocs_config
           intro: processDoc_batch_sizes)

theorem batch_size_is_hard_coded_witness:
  "updatePinecone (ex_env\<lparr>config_batchSize := 1\<rparr>) (ex_client []) ''docs''
       [ex_doc ''a#b#c'' ''a.txt''] ([], []) =
     updatePinecone ex_env (ex_client []) ''docs'' [ex_doc ''a#b#c'' ''a.txt''] ([], [])
   \<and> (\<exists>new. processDoc (ex_env\<lparr>config_batchSize := 1\<rparr>) (ex_client []) ''docs''
               (ex_doc ''a#b#c'' ''a.txt'') ([], []) = (Inr (), (new, []))
         \<and> map length (upsert_batches new) = [3]
         \<and> (\<forall>b \<in> set (upsert_batches new). length b \<le> 10))"
proof -
  let ?d = "ex_doc ''a#b#c'' ''a.txt''"
  let ?env = "ex_env\<lparr>config_batchSize := 1\<rparr>"
  note t = batch_size_is_hard_coded[where env = ex_env and n = 1 and client = "ex_client []"
             and indexName = "''docs''" and docs = "[?d]" and s = "([], [])"]
  obtain T where run: "processDoc ?env (ex_client []) ''docs'' ?d ([], []) = (Inr (), (T, []))"
    and len: "map length (upsert_batches T) = [3]"
    using ex_processDoc3[of "([], [])"]
    by (simp add: processDoc_config upsert_batches_append doc_vectors_def ex_chunks3)
  from t run obtain new where n: "T = [] @ new" "\<forall>b \<in> set (upsert_batches new). length b \<le> 10"
    by blast
  from t run len n show ?thesis
    by (intro conjI exI[of _ new]) simp_all
qed

end
